theory Spec2Isabelle
  imports Main "HOL-Library.Word"
begin

section \<open>Strings, references and errors\<close>

text \<open>
  A JavaScript string is a sequence of UTF-16 code units; a file body is a sequence of
  bytes. \<open>js\<close> writes an ASCII literal as a JavaScript string.
\<close>

type_synonym code_unit = "16 word"
type_synonym jsstring = "code_unit list"
type_synonym bytes = "8 word list"

definition js :: "string \<Rightarrow> jsstring" where
  "js s = map (\<lambda>c. of_nat (of_char c)) s"

text \<open>\<^verbatim>\<open>export interface FileLink { url: string; filename: string; }\<close>\<close>

record FileLink =
  url :: jsstring
  filename :: jsstring

text \<open>
  The exceptions that reach the code: a rejected \<^verbatim>\<open>axios.get\<close>, an \<^verbatim>\<open>'error'\<close> event of the
  write stream, a browser that does not launch or does not close, \<^verbatim>\<open>new URL\<close> on an
  unparsable input, \<^verbatim>\<open>JSON.parse\<close> on malformed text, a property read on \<^verbatim>\<open>null\<close>, and a
  checkpoint that cannot be written.
\<close>

datatype error =
    NetworkError
  | WriteStreamError
  | LaunchError
  | CloseError
  | InvalidUrl
  | SyntaxError
  | TypeError
  | PersistError

section \<open>FileDownloader\<close>

subsection \<open>\<^verbatim>\<open>parseInt(header, 10)\<close>\<close>

text \<open>
  \<^verbatim>\<open>parseInt\<close> trims leading white space (the ECMAScript WhiteSpace and LineTerminator
  code units), reads an optional sign and the longest prefix of decimal digits; with no
  digit the result is \<^verbatim>\<open>NaN\<close>, here \<open>None\<close>. The value is kept as an exact integer (the
  rounding of doubles above \<open>2^53\<close> is outside the model; \<^verbatim>\<open>-0\<close> and \<^verbatim>\<open>0\<close> are equal under
  \<^verbatim>\<open>===\<close>).
\<close>

definition isStrWhiteSpaceChar :: "code_unit \<Rightarrow> bool" where
  "isStrWhiteSpaceChar c \<longleftrightarrow>
     c \<in> {0x9, 0xA, 0xB, 0xC, 0xD, 0x20, 0xA0, 0x1680, 0x2028, 0x2029, 0x202F, 0x205F,
          0x3000, 0xFEFF}
     \<or> (0x2000 \<le> c \<and> c \<le> 0x200A)"

definition isDigit :: "code_unit \<Rightarrow> bool" where
  "isDigit c \<longleftrightarrow> 0x30 \<le> c \<and> c \<le> 0x39"

definition parseInt10 :: "jsstring \<Rightarrow> int option" where
  "parseInt10 inputString =
     (let S = dropWhile isStrWhiteSpaceChar inputString;
          sign = (if S \<noteq> [] \<and> hd S = 0x2D then - 1 else 1);
          S' = (if S \<noteq> [] \<and> (hd S = 0x2B \<or> hd S = 0x2D) then tl S else S);
          Z = takeWhile isDigit S'
      in if Z = [] then None
         else Some (sign * foldl (\<lambda>a c. 10 * a + (uint c - 48)) 0 Z))"

subsection \<open>The world of a download\<close>

text \<open>
  What \<^verbatim>\<open>axios.get(url, {responseType: 'stream'})\<close> resolves to: the
  \<^verbatim>\<open>content-length\<close> header (absent: \<open>None\<close>) and the body the stream would deliver.
\<close>

record response =
  content_length :: "jsstring option"
  body :: bytes

text \<open>
  The write stream either emits \<^verbatim>\<open>'finish'\<close> or emits \<^verbatim>\<open>'error'\<close>; in the second case
  the environment says what is left at the path (\<open>None\<close>: no file).
\<close>

datatype write_result = Finish | WriterError "bytes option"

text \<open>
  The collaborators of the downloader: Node's \<^verbatim>\<open>path.join\<close>, the HTTP client (\<open>None\<close>: the
  request rejects) and the behaviour of the write stream for a path and a body.
\<close>

record download_env =
  path_join :: "jsstring \<Rightarrow> jsstring \<Rightarrow> jsstring"
  axios_get :: "jsstring \<Rightarrow> response option"
  write_stream :: "jsstring \<Rightarrow> bytes \<Rightarrow> write_result"

text \<open>
  \<^verbatim>\<open>downloadFile\<close> resolves to \<^verbatim>\<open>{downloaded: true}\<close>, to \<^verbatim>\<open>{downloaded: false}\<close>, or
  rejects: the three per-file outcomes.
\<close>

datatype outcome = Downloaded | Skipped | Failed

text \<open>The effects of the downloader, in the order they happen.\<close>

datatype event =
    Get jsstring
  | Unlink jsstring
  | Write jsstring
  | Pace
  | FailedToDownload jsstring
  | ErrorDuringDownloadProcess error

text \<open>
  The state a batch runs in: the files by path, the effects so far and the outcome of each
  reference attempted so far.
\<close>

record download_state =
  files :: "jsstring \<rightharpoonup> bytes"
  trace :: "event list"
  outcomes :: "(FileLink \<times> outcome) list"

definition emit :: "event \<Rightarrow> download_state \<Rightarrow> download_state" where
  "emit e s = s\<lparr>trace := trace s @ [e]\<rparr>"

definition settle :: "FileLink \<Rightarrow> outcome \<Rightarrow> download_state \<Rightarrow> download_state" where
  "settle l oc s = s\<lparr>outcomes := outcomes s @ [(l, oc)]\<rparr>"

subsection \<open>\<^verbatim>\<open>downloadFile\<close>\<close>

text \<open>
  The tail of \<^verbatim>\<open>downloadFile\<close>: \<^verbatim>\<open>fs.createWriteStream(filePath)\<close>, the pipe and the wait
  for \<^verbatim>\<open>'finish'\<close> or \<^verbatim>\<open>'error'\<close>. The \<^verbatim>\<open>catch\<close> logs and throws the error again.
\<close>

definition pipeToFile ::
  "download_env \<Rightarrow> FileLink \<Rightarrow> jsstring \<Rightarrow> response \<Rightarrow> download_state
     \<Rightarrow> (error + bool) \<times> download_state" where
  "pipeToFile env fileLink filePath resp s =
     (let s1 = emit (Write filePath) s in
      case write_stream env filePath (body resp) of
        Finish \<Rightarrow>
          (Inr True, settle fileLink Downloaded (s1\<lparr>files := (files s1)(filePath \<mapsto> body resp)\<rparr>))
      | WriterError left \<Rightarrow>
          (Inl WriteStreamError,
           settle fileLink Failed
             (emit (FailedToDownload (url fileLink)) (s1\<lparr>files := (files s1)(filePath := left)\<rparr>))))"

definition downloadFile ::
  "download_env \<Rightarrow> jsstring \<Rightarrow> FileLink \<Rightarrow> download_state
     \<Rightarrow> (error + bool) \<times> download_state" where
  "downloadFile env folderPath fileLink s =
     (let filePath = path_join env folderPath (filename fileLink);
          s1 = emit (Get (url fileLink)) s in
      case axios_get env (url fileLink) of
        None \<Rightarrow>
          (Inl NetworkError, settle fileLink Failed (emit (FailedToDownload (url fileLink)) s1))
      | Some resp \<Rightarrow>
          (case files s1 filePath of
             Some existing \<Rightarrow>
               (let existingFileSize = int (length existing);
                    tempFileSize =
                      (case content_length resp of
                         None \<Rightarrow> None
                       | Some contentLengthHeader \<Rightarrow>
                           if contentLengthHeader = [] then None
                           else Some (parseInt10 contentLengthHeader))
                in case tempFileSize of
                     None \<Rightarrow> (Inr False, settle fileLink Skipped s1)
                   | Some parsed \<Rightarrow>
                       if parsed = Some existingFileSize
                       then (Inr False, settle fileLink Skipped s1)
                       else pipeToFile env fileLink filePath resp
                              (emit (Unlink filePath) (s1\<lparr>files := (files s1)(filePath := None)\<rparr>)))
           | None \<Rightarrow> pipeToFile env fileLink filePath resp s1))"

subsection \<open>\<^verbatim>\<open>downloadAllFiles\<close> and \<^verbatim>\<open>confirmAndDownloadFiles\<close>\<close>

text \<open>
  The \<^verbatim>\<open>for\<close> loop of \<^verbatim>\<open>downloadAllFiles\<close>: no \<^verbatim>\<open>try\<close> around \<^verbatim>\<open>downloadFile\<close>, so a
  rejection leaves the loop; a pacing delay follows each download and no skip. (The
  creation of the target folder and the length of the delay are not modelled.)
\<close>

fun downloadAllFiles ::
  "download_env \<Rightarrow> jsstring \<Rightarrow> FileLink list \<Rightarrow> download_state
     \<Rightarrow> (error + unit) \<times> download_state" where
  "downloadAllFiles env folderPath [] s = (Inr (), s)"
| "downloadAllFiles env folderPath (fileLink # rest) s =
     (case downloadFile env folderPath fileLink s of
        (Inl err, s') \<Rightarrow> (Inl err, s')
      | (Inr downloaded, s') \<Rightarrow>
          downloadAllFiles env folderPath rest (if downloaded then emit Pace s' else s'))"

text \<open>
  \<open>confirmed\<close> is what \<^verbatim>\<open>askUserConfirmation\<close> resolves to (true exactly for a reply that is
  \<^verbatim>\<open>y\<close> after trimming and lower-casing). The \<^verbatim>\<open>catch\<close> of \<^verbatim>\<open>confirmAndDownloadFiles\<close>
  logs the error and does not throw.
\<close>

definition confirmAndDownloadFiles ::
  "download_env \<Rightarrow> jsstring \<Rightarrow> bool \<Rightarrow> FileLink list \<Rightarrow> download_state
     \<Rightarrow> (error + unit) \<times> download_state" where
  "confirmAndDownloadFiles env folderPath confirmed fileLinks s =
     (if confirmed then
        (case downloadAllFiles env folderPath fileLinks s of
           (Inl err, s') \<Rightarrow> (Inr (), emit (ErrorDuringDownloadProcess err) s')
         | (Inr u, s') \<Rightarrow> (Inr (), s'))
      else (Inr (), s))"

section \<open>The checkpoint file\<close>

subsection \<open>\<^verbatim>\<open>JSON.stringify\<close> of a reference\<close>

text \<open>
  ECMAScript's QuoteJSONString: the two-character escapes, \<^verbatim>\<open>\uXXXX\<close> in lower-case
  hexadecimal for the other control characters and for a surrogate that is not part of a
  pair, every other code unit as it is.
\<close>

definition isLeadingSurrogate :: "code_unit \<Rightarrow> bool" where
  "isLeadingSurrogate c \<longleftrightarrow> 0xD800 \<le> c \<and> c \<le> 0xDBFF"

definition isTrailingSurrogate :: "code_unit \<Rightarrow> bool" where
  "isTrailingSurrogate c \<longleftrightarrow> 0xDC00 \<le> c \<and> c \<le> 0xDFFF"

definition hexDigit :: "nat \<Rightarrow> code_unit" where
  "hexDigit d = (if d < 10 then of_nat (48 + d) else of_nat (87 + d))"

definition UnicodeEscape :: "code_unit \<Rightarrow> jsstring" where
  "UnicodeEscape c =
     (let n = unat c
      in [0x5C, 0x75, hexDigit (n div 4096), hexDigit (n div 256 mod 16),
          hexDigit (n div 16 mod 16), hexDigit (n mod 16)])"

fun QuoteJSONChars :: "jsstring \<Rightarrow> jsstring" where
  "QuoteJSONChars [] = []"
| "QuoteJSONChars (c # cs) =
     (if c = 0x08 then [0x5C, 0x62] @ QuoteJSONChars cs
      else if c = 0x09 then [0x5C, 0x74] @ QuoteJSONChars cs
      else if c = 0x0A then [0x5C, 0x6E] @ QuoteJSONChars cs
      else if c = 0x0C then [0x5C, 0x66] @ QuoteJSONChars cs
      else if c = 0x0D then [0x5C, 0x72] @ QuoteJSONChars cs
      else if c = 0x22 then [0x5C, 0x22] @ QuoteJSONChars cs
      else if c = 0x5C then [0x5C, 0x5C] @ QuoteJSONChars cs
      else if c < 0x20 then UnicodeEscape c @ QuoteJSONChars cs
      else if isLeadingSurrogate c then
        (case cs of
           [] \<Rightarrow> UnicodeEscape c
         | d # ds \<Rightarrow>
             if isTrailingSurrogate d then c # d # QuoteJSONChars ds
             else UnicodeEscape c @ QuoteJSONChars cs)
      else if isTrailingSurrogate c then UnicodeEscape c @ QuoteJSONChars cs
      else c # QuoteJSONChars cs)"

definition QuoteJSONString :: "jsstring \<Rightarrow> jsstring" where
  "QuoteJSONString s = [0x22] @ QuoteJSONChars s @ [0x22]"

text \<open>\<^verbatim>\<open>JSON.stringify(link)\<close> for an object with the properties \<^verbatim>\<open>url\<close> and \<^verbatim>\<open>filename\<close>.\<close>

definition stringifyFileLink :: "FileLink \<Rightarrow> jsstring" where
  "stringifyFileLink link =
     js ''{'' @ QuoteJSONString (js ''url'') @ js '':'' @ QuoteJSONString (url link)
     @ js '','' @ QuoteJSONString (js ''filename'') @ js '':'' @ QuoteJSONString (filename link)
     @ js ''}''"

text \<open>\<^verbatim>\<open>Array.prototype.join\<close>.\<close>

fun join :: "jsstring \<Rightarrow> jsstring list \<Rightarrow> jsstring" where
  "join sep [] = []"
| "join sep [x] = x"
| "join sep (x # y # ys) = x @ sep @ join sep (y # ys)"

text \<open>
  \<^verbatim>\<open>'[\n' + fileLinks.map(link => `  ${JSON.stringify(link)}`).join(',\n') + '\n]'\<close>
\<close>

definition jsonLines :: "FileLink list \<Rightarrow> jsstring" where
  "jsonLines fileLinks =
     [0x5B, 0x0A]
     @ join [0x2C, 0x0A] (map (\<lambda>link. js ''  '' @ stringifyFileLink link) fileLinks)
     @ [0x0A, 0x5D]"

subsection \<open>Writing and reading the file as UTF-8\<close>

text \<open>
  What \<^verbatim>\<open>fs.readFileSync(p, 'utf8')\<close> returns for a file written by
  \<^verbatim>\<open>fs.writeFileSync(p, s, 'utf8')\<close>: the encoder replaces a surrogate that is not part of
  a pair by U+FFFD, everything else comes back as it was.
\<close>

fun utf8_reread :: "jsstring \<Rightarrow> jsstring" where
  "utf8_reread [] = []"
| "utf8_reread (c # cs) =
     (if isLeadingSurrogate c then
        (case cs of
           [] \<Rightarrow> [0xFFFD]
         | d # ds \<Rightarrow>
             if isTrailingSurrogate d then c # d # utf8_reread ds
             else 0xFFFD # utf8_reread cs)
      else if isTrailingSurrogate c then 0xFFFD # utf8_reread cs
      else c # utf8_reread cs)"

subsection \<open>\<^verbatim>\<open>JSON.parse\<close>\<close>

text \<open>
  A JSON value. A number is kept as its lexeme (doubles are not modelled); an object is the
  list of its properties in creation order.
\<close>

datatype json =
    JNull
  | JBool bool
  | JNumber jsstring
  | JString jsstring
  | JArray "json list"
  | JObject "(jsstring \<times> json) list"

definition isJSONWhiteSpace :: "code_unit \<Rightarrow> bool" where
  "isJSONWhiteSpace c \<longleftrightarrow> c = 0x09 \<or> c = 0x0A \<or> c = 0x0D \<or> c = 0x20"

definition skipWhiteSpace :: "jsstring \<Rightarrow> jsstring" where
  "skipWhiteSpace s = dropWhile isJSONWhiteSpace s"

definition hexValue :: "code_unit \<Rightarrow> nat option" where
  "hexValue c =
     (if 0x30 \<le> c \<and> c \<le> 0x39 then Some (unat c - 48)
      else if 0x41 \<le> c \<and> c \<le> 0x46 then Some (unat c - 55)
      else if 0x61 \<le> c \<and> c \<le> 0x66 then Some (unat c - 87)
      else None)"

text \<open>The character after a backslash, other than \<^verbatim>\<open>u\<close>.\<close>

definition unescape :: "code_unit \<Rightarrow> code_unit option" where
  "unescape e =
     (if e = 0x22 then Some 0x22
      else if e = 0x5C then Some 0x5C
      else if e = 0x2F then Some 0x2F
      else if e = 0x62 then Some 0x08
      else if e = 0x66 then Some 0x0C
      else if e = 0x6E then Some 0x0A
      else if e = 0x72 then Some 0x0D
      else if e = 0x74 then Some 0x09
      else None)"

text \<open>
  The characters of a JSON string after its opening quote: the string's value and what
  follows the closing quote.
\<close>

fun parseJSONChars :: "jsstring \<Rightarrow> (jsstring \<times> jsstring) option" where
  "parseJSONChars [] = None"
| "parseJSONChars (c # cs) =
     (if c = 0x22 then Some ([], cs)
      else if c = 0x5C then
        (case cs of
           [] \<Rightarrow> None
         | e # rest \<Rightarrow>
             if e = 0x75 then
               (case rest of
                  h1 # h2 # h3 # h4 # rest' \<Rightarrow>
                    (case hexValue h1 of None \<Rightarrow> None | Some d1 \<Rightarrow>
                     case hexValue h2 of None \<Rightarrow> None | Some d2 \<Rightarrow>
                     case hexValue h3 of None \<Rightarrow> None | Some d3 \<Rightarrow>
                     case hexValue h4 of None \<Rightarrow> None | Some d4 \<Rightarrow>
                     case parseJSONChars rest' of
                       None \<Rightarrow> None
                     | Some (str, r) \<Rightarrow>
                         Some (of_nat (((d1 * 16 + d2) * 16 + d3) * 16 + d4) # str, r))
                | _ \<Rightarrow> None)
             else
               (case unescape e of
                  None \<Rightarrow> None
                | Some u \<Rightarrow>
                    (case parseJSONChars rest of
                       None \<Rightarrow> None
                     | Some (str, r) \<Rightarrow> Some (u # str, r))))
      else if c < 0x20 then None
      else
        (case parseJSONChars cs of
           None \<Rightarrow> None
         | Some (str, r) \<Rightarrow> Some (c # str, r)))"

text \<open>
  A JSON number: an optional minus, \<^verbatim>\<open>0\<close> or a digit sequence without leading zero, an
  optional fraction and an optional exponent.
\<close>

definition parseJSONNumber :: "jsstring \<Rightarrow> (jsstring \<times> jsstring) option" where
  "parseJSONNumber s =
     (let sign = takeWhile (\<lambda>c. c = 0x2D) (take 1 s);
          s1 = drop (length sign) s;
          intPart = (if take 1 s1 = [0x30] then [0x30] else takeWhile isDigit s1);
          s2 = drop (length intPart) s1;
          fracDigits = (if take 1 s2 = [0x2E] then takeWhile isDigit (drop 1 s2) else []);
          frac = (if take 1 s2 = [0x2E] then 0x2E # fracDigits else []);
          s3 = drop (length frac) s2;
          hasExp = (take 1 s3 = [0x65] \<or> take 1 s3 = [0x45]);
          expSign = (if hasExp then takeWhile (\<lambda>c. c = 0x2B \<or> c = 0x2D) (take 1 (drop 1 s3)) else []);
          expDigits = (if hasExp then takeWhile isDigit (drop (1 + length expSign) s3) else []);
          exp = (if hasExp then take 1 s3 @ expSign @ expDigits else []);
          s4 = drop (length exp) s3
      in if intPart = [] \<or> (take 1 s2 = [0x2E] \<and> fracDigits = []) \<or> (hasExp \<and> expDigits = [])
         then None
         else Some (sign @ intPart @ frac @ exp, s4))"

text \<open>
  Creating a property: a key that is there already keeps its place and takes the new
  value. (The reordering of integer-like keys is not modelled.)
\<close>

fun setProperty :: "jsstring \<Rightarrow> json \<Rightarrow> (jsstring \<times> json) list \<Rightarrow> (jsstring \<times> json) list" where
  "setProperty k v [] = [(k, v)]"
| "setProperty k v ((k', v') # ps) =
     (if k' = k then (k, v) # ps else (k', v') # setProperty k v ps)"

definition makeObject :: "(jsstring \<times> json) list \<Rightarrow> (jsstring \<times> json) list" where
  "makeObject members = foldl (\<lambda>obj (k, v). setProperty k v obj) [] members"

text \<open>
  The recursive descent over values, the elements of an array and the members of an
  object. The first argument bounds the depth of the descent; every step down follows at
  least one character read, and \<open>JSON_parse\<close> starts with one more than the length of the
  text.
\<close>

fun parseValue :: "nat \<Rightarrow> jsstring \<Rightarrow> (json \<times> jsstring) option"
  and parseElements :: "nat \<Rightarrow> jsstring \<Rightarrow> (json list \<times> jsstring) option"
  and parseMembers :: "nat \<Rightarrow> jsstring \<Rightarrow> ((jsstring \<times> json) list \<times> jsstring) option" where
  "parseValue 0 s = None"
| "parseValue (Suc n) s =
     (case skipWhiteSpace s of
        [] \<Rightarrow> None
      | c # cs \<Rightarrow>
          if c = 0x22 then
            (case parseJSONChars cs of
               None \<Rightarrow> None
             | Some (str, r) \<Rightarrow> Some (JString str, r))
          else if c = 0x5B then
            (case skipWhiteSpace cs of
               [] \<Rightarrow> None
             | d # ds \<Rightarrow>
                 if d = 0x5D then Some (JArray [], ds)
                 else (case parseElements n (d # ds) of
                         None \<Rightarrow> None
                       | Some (vs, r) \<Rightarrow> Some (JArray vs, r)))
          else if c = 0x7B then
            (case skipWhiteSpace cs of
               [] \<Rightarrow> None
             | d # ds \<Rightarrow>
                 if d = 0x7D then Some (JObject [], ds)
                 else (case parseMembers n (d # ds) of
                         None \<Rightarrow> None
                       | Some (ms, r) \<Rightarrow> Some (JObject (makeObject ms), r)))
          else if take 4 (c # cs) = js ''true'' then Some (JBool True, drop 4 (c # cs))
          else if take 5 (c # cs) = js ''false'' then Some (JBool False, drop 5 (c # cs))
          else if take 4 (c # cs) = js ''null'' then Some (JNull, drop 4 (c # cs))
          else (case parseJSONNumber (c # cs) of
                  None \<Rightarrow> None
                | Some (lexeme, r) \<Rightarrow> Some (JNumber lexeme, r)))"
| "parseElements 0 s = None"
| "parseElements (Suc n) s =
     (case parseValue n s of
        None \<Rightarrow> None
      | Some (v, r) \<Rightarrow>
          (case skipWhiteSpace r of
             [] \<Rightarrow> None
           | d # ds \<Rightarrow>
               if d = 0x2C then
                 (case parseElements n ds of
                    None \<Rightarrow> None
                  | Some (vs, r') \<Rightarrow> Some (v # vs, r'))
               else if d = 0x5D then Some ([v], ds)
               else None))"
| "parseMembers 0 s = None"
| "parseMembers (Suc n) s =
     (case skipWhiteSpace s of
        [] \<Rightarrow> None
      | c # cs \<Rightarrow>
          if c \<noteq> 0x22 then None
          else
            (case parseJSONChars cs of
               None \<Rightarrow> None
             | Some (key, r) \<Rightarrow>
                 (case skipWhiteSpace r of
                    [] \<Rightarrow> None
                  | d # ds \<Rightarrow>
                      if d \<noteq> 0x3A then None
                      else
                        (case parseValue n ds of
                           None \<Rightarrow> None
                         | Some (v, r') \<Rightarrow>
                             (case skipWhiteSpace r' of
                                [] \<Rightarrow> None
                              | e # es \<Rightarrow>
                                  if e = 0x2C then
                                    (case parseMembers n es of
                                       None \<Rightarrow> None
                                     | Some (ms, r'') \<Rightarrow> Some ((key, v) # ms, r''))
                                  else if e = 0x7D then Some ([(key, v)], es)
                                  else None)))))"

text \<open>\<^verbatim>\<open>JSON.parse(text)\<close>; \<open>None\<close> is the SyntaxError.\<close>

definition JSON_parse :: "jsstring \<Rightarrow> json option" where
  "JSON_parse text =
     (case parseValue (Suc (length text)) text of
        None \<Rightarrow> None
      | Some (v, r) \<Rightarrow> if skipWhiteSpace r = [] then Some v else None)"

text \<open>
  The JavaScript value of a reference and of a list of references, and the references a
  JSON value stands for when it is an array of objects whose \<^verbatim>\<open>url\<close> and \<^verbatim>\<open>filename\<close> are
  strings.
\<close>

definition jsonOfFileLink :: "FileLink \<Rightarrow> json" where
  "jsonOfFileLink link =
     JObject [(js ''url'', JString (url link)), (js ''filename'', JString (filename link))]"

definition jsonOfFileLinks :: "FileLink list \<Rightarrow> json" where
  "jsonOfFileLinks fileLinks = JArray (map jsonOfFileLink fileLinks)"

definition fileLinkOfJson :: "json \<Rightarrow> FileLink option" where
  "fileLinkOfJson v =
     (case v of
        JObject ps \<Rightarrow>
          (case (map_of ps (js ''url''), map_of ps (js ''filename'')) of
             (Some (JString u), Some (JString f)) \<Rightarrow> Some \<lparr>url = u, filename = f\<rparr>
           | _ \<Rightarrow> None)
      | _ \<Rightarrow> None)"

fun fileLinksOfElements :: "json list \<Rightarrow> FileLink list option" where
  "fileLinksOfElements [] = Some []"
| "fileLinksOfElements (v # vs) =
     (case fileLinkOfJson v of
        None \<Rightarrow> None
      | Some link \<Rightarrow> map_option ((#) link) (fileLinksOfElements vs))"

definition fileLinksOfJson :: "json \<Rightarrow> FileLink list option" where
  "fileLinksOfJson v = (case v of JArray vs \<Rightarrow> fileLinksOfElements vs | _ \<Rightarrow> None)"

section \<open>FileLinkFetcher\<close>

subsection \<open>Configuration and collaborators\<close>

text \<open>
  The constructor arguments the walk reads: \<open>baseUrl\<close> after the substitutions of the
  constructor, \<open>startPage\<close> and \<open>maxItemsPerPage\<close> (JavaScript numbers, here integers).
\<close>

record fetcher_config =
  baseUrl :: jsstring
  startPage :: int
  maxItemsPerPage :: int

text \<open>
  What the headless browser does for one listing page: whether \<^verbatim>\<open>puppeteer.launch()\<close> and
  \<^verbatim>\<open>browser.newPage()\<close> succeed, the \<^verbatim>\<open>{href, title}\<close> pairs of the anchors in document
  order (\<open>None\<close>: \<^verbatim>\<open>page.goto\<close> or \<^verbatim>\<open>page.evaluate\<close> throws), and whether
  \<^verbatim>\<open>browser.close()\<close> succeeds.
\<close>

record page_render =
  launches :: bool
  anchors :: "(jsstring \<times> jsstring) list option"
  closes :: bool

text \<open>
  The collaborators of the fetcher: the browser, by page number (the page whose URL is
  \<open>baseUrl\<close> with \<^verbatim>\<open>{curPage}\<close> replaced by that number); \<^verbatim>\<open>href.match(downloadPattern)\<close>,
  giving \<^verbatim>\<open>match[0]\<close>; \<^verbatim>\<open>new URL(x, base).href\<close> (\<open>None\<close>: it throws);
  \<^verbatim>\<open>title.match(/(.+\.[a-zA-Z0-9]+)/)\<close>, giving \<^verbatim>\<open>match[1]\<close>; and the disk under the
  checkpoint (\<open>None\<close>: the write succeeds, \<open>Some left\<close>: it throws and leaves \<open>left\<close>).
\<close>

record fetcher_env =
  render :: "int \<Rightarrow> page_render"
  matchDownloadPattern :: "jsstring \<Rightarrow> jsstring option"
  newURL :: "jsstring \<Rightarrow> jsstring \<Rightarrow> jsstring option"
  matchTitle :: "jsstring \<Rightarrow> jsstring option"
  checkpoint_fault :: "jsstring option option"

subsection \<open>\<^verbatim>\<open>getFileLinksFromPage\<close>\<close>

definition extractFileUrl :: "fetcher_env \<Rightarrow> fetcher_config \<Rightarrow> jsstring \<Rightarrow> error + jsstring option" where
  "extractFileUrl env cfg href =
     (case matchDownloadPattern env href of
        Some m \<Rightarrow>
          if take 4 m = js ''http'' then Inr (Some m)
          else (case newURL env m (baseUrl cfg) of
                  None \<Rightarrow> Inl InvalidUrl
                | Some resolved \<Rightarrow> Inr (Some resolved))
      | None \<Rightarrow> Inr None)"

definition extractFileNameFromTitle :: "fetcher_env \<Rightarrow> jsstring \<Rightarrow> jsstring option" where
  "extractFileNameFromTitle env title =
     (case matchTitle env title of Some m \<Rightarrow> Some m | None \<Rightarrow> None)"

text \<open>
  The \<^verbatim>\<open>for\<close> loop inside the \<^verbatim>\<open>try\<close>. A pair is pushed when both strings are there and
  not empty. When \<^verbatim>\<open>extractFileUrl\<close> throws, the \<^verbatim>\<open>catch\<close> logs the error and the loop is
  over: \<open>fileLinks\<close> keeps what was pushed before.
\<close>

fun extractLinks ::
  "fetcher_env \<Rightarrow> fetcher_config \<Rightarrow> (jsstring \<times> jsstring) list \<Rightarrow> FileLink list \<Rightarrow> FileLink list" where
  "extractLinks env cfg [] fileLinks = fileLinks"
| "extractLinks env cfg ((href, title) # links) fileLinks =
     (case extractFileUrl env cfg href of
        Inl err \<Rightarrow> fileLinks
      | Inr fileUrl \<Rightarrow>
          (case (fileUrl, extractFileNameFromTitle env title) of
             (Some u, Some f) \<Rightarrow>
               if u \<noteq> [] \<and> f \<noteq> []
               then extractLinks env cfg links (fileLinks @ [\<lparr>url = u, filename = f\<rparr>])
               else extractLinks env cfg links fileLinks
           | _ \<Rightarrow> extractLinks env cfg links fileLinks))"

text \<open>
  \<^verbatim>\<open>puppeteer.launch()\<close> and \<^verbatim>\<open>browser.newPage()\<close> come before the \<^verbatim>\<open>try\<close>, and
  \<^verbatim>\<open>browser.close()\<close> is in the \<^verbatim>\<open>finally\<close>: their exceptions leave the function.
\<close>

definition getFileLinksFromPage :: "fetcher_env \<Rightarrow> fetcher_config \<Rightarrow> int \<Rightarrow> error + FileLink list" where
  "getFileLinksFromPage env cfg page =
     (let r = render env page in
      if \<not> launches r then Inl LaunchError
      else
        (let fileLinks = (case anchors r of None \<Rightarrow> [] | Some links \<Rightarrow> extractLinks env cfg links [])
         in if closes r then Inr fileLinks else Inl CloseError))"

subsection \<open>\<^verbatim>\<open>saveFileLinksToJson\<close>\<close>

text \<open>
  The checkpoint is the text \<^verbatim>\<open>readFileSync(outputFilePath, 'utf8')\<close> returns, \<open>None\<close> when
  there is no file. (The creation of the folder is not modelled.)
\<close>

definition saveFileLinksToJson ::
  "fetcher_env \<Rightarrow> FileLink list \<Rightarrow> jsstring option \<Rightarrow> (error + unit) \<times> jsstring option" where
  "saveFileLinksToJson env fileLinks checkpoint =
     (case checkpoint_fault env of
        None \<Rightarrow> (Inr (), Some (utf8_reread (jsonLines fileLinks)))
      | Some left \<Rightarrow> (Inl PersistError, left))"

subsection \<open>\<^verbatim>\<open>fetchAllFileLinks\<close>\<close>

text \<open>
  \<^verbatim>\<open>lastPageLinks.length === pageFileLinks.length && lastPageLinks.every((link, index) => ...)\<close>
\<close>

definition isDuplicatePage :: "FileLink list \<Rightarrow> FileLink list \<Rightarrow> bool" where
  "isDuplicatePage lastPageLinks pageFileLinks \<longleftrightarrow>
     length lastPageLinks = length pageFileLinks
     \<and> list_all (\<lambda>index. url (lastPageLinks ! index) = url (pageFileLinks ! index)
                      \<and> filename (lastPageLinks ! index) = filename (pageFileLinks ! index))
          [0..<length lastPageLinks]"

text \<open>The two \<^verbatim>\<open>break\<close>s of the loop, and how the loop ends.\<close>

datatype stop = DuplicatePage | ShortPage

datatype walk_end = Raised error | Stopped stop "FileLink list"

text \<open>
  The \<^verbatim>\<open>while (true)\<close> loop, with the pages fetched so far. The loop may run forever:
  \<open>None\<close> is the run that does.
\<close>

partial_function (option) pageWalk ::
  "fetcher_env \<Rightarrow> fetcher_config \<Rightarrow> int \<Rightarrow> FileLink list \<Rightarrow> FileLink list \<Rightarrow> int list
     \<Rightarrow> (walk_end \<times> int list) option" where
  "pageWalk env cfg page lastPageLinks fileLinks fetched =
     (case getFileLinksFromPage env cfg page of
        Inl err \<Rightarrow> Some (Raised err, fetched @ [page])
      | Inr pageFileLinks \<Rightarrow>
          if isDuplicatePage lastPageLinks pageFileLinks
          then Some (Stopped DuplicatePage fileLinks, fetched @ [page])
          else if int (length pageFileLinks) < maxItemsPerPage cfg
          then Some (Stopped ShortPage (fileLinks @ pageFileLinks), fetched @ [page])
          else pageWalk env cfg (page + 1) pageFileLinks (fileLinks @ pageFileLinks)
                 (fetched @ [page]))"

text \<open>
  What \<^verbatim>\<open>fetchAllFileLinks\<close> resolves to: the value parsed from the checkpoint, or the
  accumulator of the walk.
\<close>

datatype fetched = Reused json | Walked "FileLink list"

text \<open>
  A finished run: the result, the pages fetched in order, the \<^verbatim>\<open>break\<close> that ended the
  walk, and the checkpoint afterwards.
\<close>

record fetch_run =
  result :: "error + fetched"
  fetchedPages :: "int list"
  stoppedBy :: "stop option"
  checkpointAfter :: "jsstring option"

text \<open>
  The second half of \<^verbatim>\<open>fetchAllFileLinks\<close>: the walk from \<open>startPage\<close> with an empty
  \<open>lastPageLinks\<close> and an empty accumulator, then \<^verbatim>\<open>saveFileLinksToJson\<close>.
\<close>

definition walkAndSave ::
  "fetcher_env \<Rightarrow> fetcher_config \<Rightarrow> jsstring option \<Rightarrow> fetch_run option" where
  "walkAndSave env cfg checkpoint =
     (case pageWalk env cfg (startPage cfg) [] [] [] of
        None \<Rightarrow> None
      | Some (Raised err, pages) \<Rightarrow>
          Some \<lparr>result = Inl err, fetchedPages = pages, stoppedBy = None,
                checkpointAfter = checkpoint\<rparr>
      | Some (Stopped why fileLinks, pages) \<Rightarrow>
          (case saveFileLinksToJson env fileLinks checkpoint of
             (Inl err, checkpoint') \<Rightarrow>
               Some \<lparr>result = Inl err, fetchedPages = pages, stoppedBy = Some why,
                     checkpointAfter = checkpoint'\<rparr>
           | (Inr u, checkpoint') \<Rightarrow>
               Some \<lparr>result = Inr (Walked fileLinks), fetchedPages = pages,
                     stoppedBy = Some why, checkpointAfter = checkpoint'\<rparr>))"

text \<open>
  \<open>userChoice\<close> is what \<^verbatim>\<open>askUserConfirmation\<close> resolves to (true exactly for a reply that
  is \<^verbatim>\<open>y\<close> after trimming and lower-casing); it is asked only when the checkpoint exists.
  \<^verbatim>\<open>fileLinks.length\<close> on the parsed value throws for \<^verbatim>\<open>null\<close>.
\<close>

definition fetchAllFileLinks ::
  "fetcher_env \<Rightarrow> fetcher_config \<Rightarrow> bool \<Rightarrow> jsstring option \<Rightarrow> fetch_run option" where
  "fetchAllFileLinks env cfg userChoice checkpoint =
     (case checkpoint of
        Some text \<Rightarrow>
          if userChoice then
            (case JSON_parse text of
               None \<Rightarrow>
                 Some \<lparr>result = Inl SyntaxError, fetchedPages = [], stoppedBy = None,
                       checkpointAfter = checkpoint\<rparr>
             | Some v \<Rightarrow>
                 if v = JNull
                 then Some \<lparr>result = Inl TypeError, fetchedPages = [], stoppedBy = None,
                            checkpointAfter = checkpoint\<rparr>
                 else Some \<lparr>result = Inr (Reused v), fetchedPages = [], stoppedBy = None,
                            checkpointAfter = checkpoint\<rparr>)
          else walkAndSave env cfg checkpoint
      | None \<Rightarrow> walkAndSave env cfg checkpoint)"

section \<open>Auxiliary notions for the proofs\<close>

text \<open>The URLs requested, read off a trace.\<close>

fun requests :: "event list \<Rightarrow> jsstring list" where
  "requests [] = []"
| "requests (Get u # es) = u # requests es"
| "requests (e # es) = requests es"

text \<open>The outcome that a result of \<^verbatim>\<open>downloadFile\<close> stands for.\<close>

definition outcome_of :: "error + bool \<Rightarrow> outcome" where
  "outcome_of r =
     (case r of Inl err \<Rightarrow> Failed | Inr downloaded \<Rightarrow> if downloaded then Downloaded else Skipped)"

text \<open>
  The references a page contributes (none when the call raises), for stating what the
  accumulator holds.
\<close>

definition pageLinks :: "fetcher_env \<Rightarrow> fetcher_config \<Rightarrow> int \<Rightarrow> FileLink list" where
  "pageLinks env cfg page =
     (case getFileLinksFromPage env cfg page of Inl err \<Rightarrow> [] | Inr fileLinks \<Rightarrow> fileLinks)"

text \<open>The iteration of the loop that ends it.\<close>

definition lastStep ::
  "fetcher_env \<Rightarrow> fetcher_config \<Rightarrow> FileLink list \<Rightarrow> FileLink list \<Rightarrow> int \<Rightarrow> walk_end" where
  "lastStep env cfg lastPageLinks fileLinks page =
     (case getFileLinksFromPage env cfg page of
        Inl err \<Rightarrow> Raised err
      | Inr pageFileLinks \<Rightarrow>
          if isDuplicatePage lastPageLinks pageFileLinks then Stopped DuplicatePage fileLinks
          else Stopped ShortPage (fileLinks @ pageFileLinks))"

text \<open>An iteration of the walk that takes one of the two \<^verbatim>\<open>break\<close>s or raises.\<close>

definition halts :: "fetcher_env \<Rightarrow> fetcher_config \<Rightarrow> FileLink list \<Rightarrow> int \<Rightarrow> bool" where
  "halts env cfg lastPageLinks page \<longleftrightarrow>
     (case getFileLinksFromPage env cfg page of
        Inl err \<Rightarrow> True
      | Inr ls \<Rightarrow> isDuplicatePage lastPageLinks ls \<or> int (length ls) < maxItemsPerPage cfg)"

text \<open>How QuoteJSONString writes a code unit that is not the first half of a pair.\<close>

definition quoteUnit :: "code_unit \<Rightarrow> jsstring" where
  "quoteUnit c =
     (if c = 0x08 then [0x5C, 0x62]
      else if c = 0x09 then [0x5C, 0x74]
      else if c = 0x0A then [0x5C, 0x6E]
      else if c = 0x0C then [0x5C, 0x66]
      else if c = 0x0D then [0x5C, 0x72]
      else if c = 0x22 then [0x5C, 0x22]
      else if c = 0x5C then [0x5C, 0x5C]
      else if c < 0x20 \<or> isLeadingSurrogate c \<or> isTrailingSurrogate c then UnicodeEscape c
      else [c])"

definition noSurrogate :: "jsstring \<Rightarrow> bool" where
  "noSurrogate s = list_all (\<lambda>c. \<not> (isLeadingSurrogate c \<or> isTrailingSurrogate c)) s"

text \<open>The lines of the checkpoint after the first reference.\<close>

definition itemsTail :: "FileLink list \<Rightarrow> jsstring" where
  "itemsTail ls = concat (map (\<lambda>l. [0x2C, 0x0A] @ js ''  '' @ stringifyFileLink l) ls)"

section \<open>Example worlds\<close>

text \<open>
  Three references on a host \<^verbatim>\<open>h\<close>, a download folder \<^verbatim>\<open>d\<close>, and \<^verbatim>\<open>path.join\<close> on a plain
  folder and a plain file name.
\<close>

definition linkA :: FileLink where
  "linkA = \<lparr>url = js ''http://h/a.pdf'', filename = js ''a.pdf''\<rparr>"

definition linkB :: FileLink where
  "linkB = \<lparr>url = js ''http://h/b.pdf'', filename = js ''b.pdf''\<rparr>"

definition linkC :: FileLink where
  "linkC = \<lparr>url = js ''http://h/c.pdf'', filename = js ''c.pdf''\<rparr>"

definition plainJoin :: "jsstring \<Rightarrow> jsstring \<Rightarrow> jsstring" where
  "plainJoin folder name = folder @ js ''/'' @ name"

text \<open>
  A server that rejects the request for \<^verbatim>\<open>b.pdf\<close>, serves \<^verbatim>\<open>c.pdf\<close> without a
  \<^verbatim>\<open>content-length\<close>, and serves three bytes with \<^verbatim>\<open>content-length: 3\<close> for every other
  URL; the disk takes every write.
\<close>

definition demoServer :: download_env where
  "demoServer =
     \<lparr>path_join = plainJoin,
      axios_get = (\<lambda>u.
        if u = js ''http://h/b.pdf'' then None
        else if u = js ''http://h/c.pdf'' then Some \<lparr>content_length = None, body = [1, 2, 3]\<rparr>
        else Some \<lparr>content_length = Some (js ''3''), body = [1, 2, 3]\<rparr>),
      write_stream = (\<lambda>p b. Finish)\<rparr>"

definition emptyFolder :: download_state where
  "emptyFolder = \<lparr>files = Map.empty, trace = [], outcomes = []\<rparr>"

text \<open>A folder that holds a file at the path of \<^verbatim>\<open>a.pdf\<close> and one at the path of \<^verbatim>\<open>c.pdf\<close>.\<close>

definition folderWith :: "bytes \<Rightarrow> download_state" where
  "folderWith content =
     \<lparr>files = [plainJoin (js ''d'') (js ''a.pdf'') \<mapsto> content,
               plainJoin (js ''d'') (js ''c.pdf'') \<mapsto> content],
      trace = [], outcomes = []\<rparr>"

text \<open>
  A listing site: the browser always launches and closes; the download pattern and the
  title pattern match the whole string; \<^verbatim>\<open>new URL(x, base)\<close> resolves a path on the host
  \<^verbatim>\<open>h\<close> and throws for \<^verbatim>\<open>//\<close>, which names no host.
\<close>

definition site :: "(int \<Rightarrow> (jsstring \<times> jsstring) list option) \<Rightarrow> fetcher_env" where
  "site pages =
     \<lparr>render = (\<lambda>p. \<lparr>launches = True, anchors = pages p, closes = True\<rparr>),
      matchDownloadPattern = Some,
      newURL = (\<lambda>x base. if x = js ''//'' then None else Some (js ''http://h'' @ x)),
      matchTitle = Some,
      checkpoint_fault = None\<rparr>"

definition twoAnchors :: "(jsstring \<times> jsstring) list" where
  "twoAnchors = [(js ''http://h/a.pdf'', js ''a.pdf''), (js ''http://h/b.pdf'', js ''b.pdf'')]"

text \<open>Every page shows the same two anchors.\<close>

definition repeatingPages :: "int \<Rightarrow> (jsstring \<times> jsstring) list option" where
  "repeatingPages p = Some twoAnchors"

text \<open>Page 1 shows the two anchors; the navigation to any other page fails.\<close>

definition failingAfterFirst :: "int \<Rightarrow> (jsstring \<times> jsstring) list option" where
  "failingAfterFirst p = (if p = 1 then Some twoAnchors else None)"

text \<open>The navigation to every page fails.\<close>

definition unreachablePages :: "int \<Rightarrow> (jsstring \<times> jsstring) list option" where
  "unreachablePages p = None"

text \<open>
  Page 1 has a good anchor followed by one whose \<^verbatim>\<open>href\<close> is \<^verbatim>\<open>//\<close>; the other pages have
  no anchor.
\<close>

definition brokenHrefPages :: "int \<Rightarrow> (jsstring \<times> jsstring) list option" where
  "brokenHrefPages p =
     (if p = 1 then Some [(js ''http://h/a.pdf'', js ''a.pdf''), (js ''//'', js ''b.pdf'')]
      else Some [])"

definition listing :: "int \<Rightarrow> fetcher_config" where
  "listing pageSize =
     \<lparr>baseUrl = js ''http://h/list?p={curPage}'', startPage = 1,
      maxItemsPerPage = pageSize\<rparr>"

section \<open>Properties of the downloader\<close>

lemma files_emit [simp]: "files (emit e s) = files s"
  by (simp add: emit_def)

lemma files_settle [simp]: "files (settle l oc s) = files s"
  by (simp add: settle_def)

lemma requests_append [simp]: "requests (xs @ ys) = requests xs @ requests ys"
  by (induction xs rule: requests.induct) simp_all

lemma pipeToFile_outcomes:
  "pipeToFile env l p resp s = (r, s') \<Longrightarrow> outcomes s' = outcomes s @ [(l, outcome_of r)]"
  by (auto simp: pipeToFile_def Let_def emit_def settle_def outcome_of_def
      split: write_result.splits)

lemma pipeToFile_requests:
  "pipeToFile env l p resp s = (r, s') \<Longrightarrow> requests (trace s') = requests (trace s)"
  by (auto simp: pipeToFile_def Let_def emit_def settle_def split: write_result.splits)

lemma pipeToFile_failed_last:
  "pipeToFile env l p resp s = (Inl err, s') \<Longrightarrow> last (trace s') = FailedToDownload (url l)"
  by (auto simp: pipeToFile_def Let_def emit_def settle_def split: write_result.splits)

lemma pipeToFile_keeps_trace:
  "pipeToFile env l p resp s = (r, s') \<Longrightarrow> set (trace s) \<subseteq> set (trace s')"
  by (auto simp: pipeToFile_def Let_def emit_def settle_def split: write_result.splits)

lemma downloadFile_outcomes:
  "downloadFile env folder l s = (r, s') \<Longrightarrow> outcomes s' = outcomes s @ [(l, outcome_of r)]"
  by (auto simp: downloadFile_def Let_def emit_def settle_def outcome_of_def
      dest!: pipeToFile_outcomes split: option.splits if_splits)

lemma downloadFile_requests:
  "downloadFile env folder l s = (r, s') \<Longrightarrow> requests (trace s') = requests (trace s) @ [url l]"
  by (auto simp: downloadFile_def Let_def emit_def settle_def
      dest!: pipeToFile_requests split: option.splits if_splits)

lemma downloadFile_failed_last:
  "downloadFile env folder l s = (Inl err, s') \<Longrightarrow> last (trace s') = FailedToDownload (url l)"
  by (auto simp: downloadFile_def Let_def emit_def settle_def
      dest!: pipeToFile_failed_last split: option.splits if_splits)

text \<open>The loop leaves at the first rejection, whatever follows in the list.\<close>

lemma downloadAllFiles_stops:
  "downloadAllFiles env folder (pre @ [b]) s = (Inl err, s')
    \<Longrightarrow> downloadAllFiles env folder (pre @ b # post) s = (Inl err, s')"
proof (induction pre arbitrary: s)
  case Nil
  then show ?case by (auto split: prod.splits sum.splits)
next
  case (Cons a pre)
  then show ?case by (auto split: prod.splits sum.splits)
qed

lemma downloadFile_skip_same_size:
  assumes "axios_get env (url l) = Some resp"
    and "files s (path_join env folder (filename l)) = Some existing"
    and "content_length resp = Some h" and "h \<noteq> []"
    and "parseInt10 h = Some (int (length existing))"
  shows "downloadFile env folder l s =
     (Inr False, s\<lparr>trace := trace s @ [Get (url l)], outcomes := outcomes s @ [(l, Skipped)]\<rparr>)"
  using assms by (simp add: downloadFile_def Let_def emit_def settle_def)

lemma downloadFile_skip_unverifiable:
  assumes "axios_get env (url l) = Some resp"
    and "files s (path_join env folder (filename l)) = Some existing"
    and "content_length resp = None \<or> content_length resp = Some []"
  shows "downloadFile env folder l s =
     (Inr False, s\<lparr>trace := trace s @ [Get (url l)], outcomes := outcomes s @ [(l, Skipped)]\<rparr>)"
  using assms by (auto simp add: downloadFile_def Let_def emit_def settle_def)

lemma downloadFile_unlinks:
  assumes "axios_get env (url l) = Some resp"
    and "files s (path_join env folder (filename l)) = Some existing"
    and "content_length resp = Some h" and "h \<noteq> []"
    and "parseInt10 h \<noteq> Some (int (length existing))"
  shows "Unlink (path_join env folder (filename l)) \<in> set (trace (snd (downloadFile env folder l s)))"
proof -
  let ?p = "path_join env folder (filename l)"
  let ?s = "emit (Unlink ?p) ((emit (Get (url l)) s)\<lparr>files := (files (emit (Get (url l)) s))(?p := None)\<rparr>)"
  have "downloadFile env folder l s = pipeToFile env l ?p resp ?s"
    using assms by (simp add: downloadFile_def Let_def)
  moreover have "Unlink ?p \<in> set (trace ?s)" by (simp add: emit_def)
  ultimately show ?thesis
    using pipeToFile_keeps_trace [of env l ?p resp ?s]
    by (cases "pipeToFile env l ?p resp ?s") auto
qed

lemma downloadFile_replace:
  assumes "axios_get env (url l) = Some resp"
    and "files s (path_join env folder (filename l)) = Some existing"
    and "content_length resp = Some h" and "h \<noteq> []"
    and "parseInt10 h \<noteq> Some (int (length existing))"
    and "write_stream env (path_join env folder (filename l)) (body resp) = Finish"
  shows "downloadFile env folder l s =
     (Inr True, s\<lparr>files := (files s)(path_join env folder (filename l) \<mapsto> body resp),
                  trace := trace s @ [Get (url l), Unlink (path_join env folder (filename l)),
                                      Write (path_join env folder (filename l))],
                  outcomes := outcomes s @ [(l, Downloaded)]\<rparr>)"
  using assms by (simp add: downloadFile_def pipeToFile_def Let_def emit_def settle_def)

lemma downloadAllFiles_all_skipped:
  assumes "\<forall>l \<in> set links. \<exists>resp h existing.
             axios_get env (url l) = Some resp
           \<and> files s (path_join env folder (filename l)) = Some existing
           \<and> content_length resp = Some h \<and> h \<noteq> []
           \<and> parseInt10 h = Some (int (length existing))"
  shows "downloadAllFiles env folder links s =
           (Inr (), s\<lparr>trace := trace s @ map (\<lambda>l. Get (url l)) links,
                      outcomes := outcomes s @ map (\<lambda>l. (l, Skipped)) links\<rparr>)"
  using assms
proof (induction links arbitrary: s)
  case Nil
  then show ?case by simp
next
  case (Cons l links)
  from Cons.prems obtain resp h existing where
    l: "axios_get env (url l) = Some resp"
       "files s (path_join env folder (filename l)) = Some existing"
       "content_length resp = Some h" "h \<noteq> []"
       "parseInt10 h = Some (int (length existing))"
    by auto
  let ?s = "s\<lparr>trace := trace s @ [Get (url l)], outcomes := outcomes s @ [(l, Skipped)]\<rparr>"
  have step: "downloadFile env folder l s = (Inr False, ?s)"
    using l by (rule downloadFile_skip_same_size)
  have "files ?s = files s" by simp
  with Cons.prems have "\<forall>l \<in> set links. \<exists>resp h existing.
           axios_get env (url l) = Some resp
         \<and> files ?s (path_join env folder (filename l)) = Some existing
         \<and> content_length resp = Some h \<and> h \<noteq> []
         \<and> parseInt10 h = Some (int (length existing))"
    by simp
  from Cons.IH [OF this] step show ?case by simp
qed

lemma demo_parse_3: "parseInt10 (js ''3'') = Some 3"
  by (simp add: parseInt10_def js_def isDigit_def isStrWhiteSpaceChar_def)

text \<open>
  C5. When the destination path already holds a file and the request is answered: a
  \<^verbatim>\<open>content-length\<close> equal to the size on disk gives a skip that leaves the files as they
  are; a different one has the existing file unlinked and, when the write stream
  finishes, the body of the response in its place; a missing or empty \<^verbatim>\<open>content-length\<close>
  gives a skip that leaves the files as they are.
\<close>

theorem existing_file_by_size:
  assumes "axios_get env (url l) = Some resp"
    and "files s (path_join env folder (filename l)) = Some existing"
  shows
    "(content_length resp = Some h \<and> h \<noteq> [] \<and> parseInt10 h = Some (int (length existing)) \<longrightarrow>
        downloadFile env folder l s =
          (Inr False,
           s\<lparr>trace := trace s @ [Get (url l)], outcomes := outcomes s @ [(l, Skipped)]\<rparr>))
     \<and> (content_length resp = Some h \<and> h \<noteq> [] \<and> parseInt10 h \<noteq> Some (int (length existing)) \<longrightarrow>
        Unlink (path_join env folder (filename l))
          \<in> set (trace (snd (downloadFile env folder l s)))
        \<and> (write_stream env (path_join env folder (filename l)) (body resp) = Finish \<longrightarrow>
             downloadFile env folder l s =
               (Inr True,
                s\<lparr>files := (files s)(path_join env folder (filename l) \<mapsto> body resp),
                  trace := trace s @ [Get (url l), Unlink (path_join env folder (filename l)),
                                      Write (path_join env folder (filename l))],
                  outcomes := outcomes s @ [(l, Downloaded)]\<rparr>)))
     \<and> (content_length resp = None \<or> content_length resp = Some [] \<longrightarrow>
        downloadFile env folder l s =
          (Inr False,
           s\<lparr>trace := trace s @ [Get (url l)], outcomes := outcomes s @ [(l, Skipped)]\<rparr>))"
  using assms downloadFile_skip_same_size [of env l resp s folder existing h]
    downloadFile_unlinks [of env l resp s folder existing h]
    downloadFile_replace [of env l resp s folder existing h]
    downloadFile_skip_unverifiable [of env l resp s folder existing]
  by blast

lemma demo_paths:
  "plainJoin (js ''d'') (js ''a.pdf'') \<noteq> plainJoin (js ''d'') (js ''c.pdf'')"
  by (simp add: plainJoin_def js_def)

lemma folderWith_fresh: "trace (folderWith x) = []" "outcomes (folderWith x) = []"
  by (simp_all add: folderWith_def)

lemma js_nonempty: "js ''3'' \<noteq> []"
  by (simp add: js_def)

theorem existing_file_by_size_witness:
  "downloadFile demoServer (js ''d'') linkA (folderWith [7, 7, 7]) =
     (Inr False,
      (folderWith [7, 7, 7])\<lparr>trace := [Get (url linkA)], outcomes := [(linkA, Skipped)]\<rparr>)
   \<and> downloadFile demoServer (js ''d'') linkA (folderWith [7]) =
     (Inr True,
      (folderWith [7])\<lparr>files := (files (folderWith [7]))(plainJoin (js ''d'') (js ''a.pdf'') \<mapsto> [1, 2, 3]),
        trace := [Get (url linkA), Unlink (plainJoin (js ''d'') (js ''a.pdf'')),
                  Write (plainJoin (js ''d'') (js ''a.pdf''))],
        outcomes := [(linkA, Downloaded)]\<rparr>)
   \<and> downloadFile demoServer (js ''d'') linkC (folderWith [7]) =
     (Inr False, (folderWith [7])\<lparr>trace := [Get (url linkC)], outcomes := [(linkC, Skipped)]\<rparr>)"
proof -
  have a: "axios_get demoServer (url linkA) = Some \<lparr>content_length = Some (js ''3''), body = [1, 2, 3]\<rparr>"
    by (simp add: demoServer_def linkA_def js_def)
  have c: "axios_get demoServer (url linkC) = Some \<lparr>content_length = None, body = [1, 2, 3]\<rparr>"
    by (simp add: demoServer_def linkC_def js_def)
  have fa: "files (folderWith x) (path_join demoServer (js ''d'') (filename linkA)) = Some x" for x
    using demo_paths by (simp add: folderWith_def demoServer_def linkA_def)
  have fc: "files (folderWith x) (path_join demoServer (js ''d'') (filename linkC)) = Some x" for x
    by (simp add: folderWith_def demoServer_def linkC_def)
  have p: "path_join demoServer (js ''d'') (filename linkA) = plainJoin (js ''d'') (js ''a.pdf'')"
    by (simp add: demoServer_def linkA_def)
  have w: "write_stream demoServer q b = Finish" for q b
    by (simp add: demoServer_def)
  show ?thesis
    using existing_file_by_size [OF a fa [of "[7, 7, 7]"], where h = "js ''3''"]
      existing_file_by_size [OF a fa [of "[7]"], where h = "js ''3''"]
      existing_file_by_size [OF c fc [of "[7]"]]
    by (simp add: demo_parse_3 p w js_nonempty folderWith_fresh)
qed

text \<open>
  C6. For references \<open>[A, B, C]\<close>: when the download of \<open>A\<close> completes and the download
  of \<open>B\<close> raises, \<^verbatim>\<open>downloadAllFiles\<close> raises the error of \<open>B\<close> in the state \<open>B\<close> left:
  the outcomes added are downloaded for \<open>A\<close> and failed for \<open>B\<close>, and the only requests
  added are those for \<open>A\<close> and \<open>B\<close>, so \<open>C\<close> is never attempted.
\<close>

theorem batch_aborts_on_first_failure:
  assumes "downloadFile env folder A s = (Inr True, sA)"
    and "downloadFile env folder B (emit Pace sA) = (Inl err, sB)"
  shows "downloadAllFiles env folder [A, B, C] s = (Inl err, sB)
       \<and> outcomes sB = outcomes s @ [(A, Downloaded), (B, Failed)]
       \<and> requests (trace sB) = requests (trace s) @ [url A, url B]"
proof -
  have "downloadAllFiles env folder [A, B, C] s = (Inl err, sB)"
    using assms by simp
  moreover have "outcomes sB = outcomes s @ [(A, Downloaded), (B, Failed)]"
    using downloadFile_outcomes [OF assms(1)] downloadFile_outcomes [OF assms(2)]
    by (simp add: outcome_of_def emit_def)
  moreover have "requests (trace sB) = requests (trace s) @ [url A, url B]"
    using downloadFile_requests [OF assms(1)] downloadFile_requests [OF assms(2)]
    by (simp add: emit_def)
  ultimately show ?thesis by simp
qed

theorem batch_aborts_on_first_failure_witness:
  "downloadAllFiles demoServer (js ''d'') [linkA, linkB, linkC] emptyFolder =
     (Inl NetworkError,
      \<lparr>files = [plainJoin (js ''d'') (js ''a.pdf'') \<mapsto> [1, 2, 3]],
       trace = [Get (url linkA), Write (plainJoin (js ''d'') (js ''a.pdf'')), Pace,
                Get (url linkB), FailedToDownload (url linkB)],
       outcomes = [(linkA, Downloaded), (linkB, Failed)]\<rparr>)"
proof -
  let ?sA = "\<lparr>files = [plainJoin (js ''d'') (js ''a.pdf'') \<mapsto> [1, 2, 3]],
       trace = [Get (url linkA), Write (plainJoin (js ''d'') (js ''a.pdf''))],
       outcomes = [(linkA, Downloaded)]\<rparr>"
  let ?sB = "\<lparr>files = [plainJoin (js ''d'') (js ''a.pdf'') \<mapsto> [1, 2, 3]],
       trace = [Get (url linkA), Write (plainJoin (js ''d'') (js ''a.pdf'')), Pace,
                Get (url linkB), FailedToDownload (url linkB)],
       outcomes = [(linkA, Downloaded), (linkB, Failed)]\<rparr>"
  have a: "downloadFile demoServer (js ''d'') linkA emptyFolder = (Inr True, ?sA)"
    by (simp add: downloadFile_def pipeToFile_def Let_def emit_def settle_def demoServer_def
        linkA_def emptyFolder_def js_def)
  have b: "downloadFile demoServer (js ''d'') linkB (emit Pace ?sA) = (Inl NetworkError, ?sB)"
    by (simp add: downloadFile_def Let_def emit_def settle_def demoServer_def linkB_def js_def)
  show ?thesis
    using batch_aborts_on_first_failure [OF a b, of linkC] by simp
qed

text \<open>
  C7, as the code has it. A failure of a download is logged and thrown again by
  \<^verbatim>\<open>downloadFile\<close> and leaves \<^verbatim>\<open>downloadAllFiles\<close> as that error, in the state the
  failing download left. \<^verbatim>\<open>confirmAndDownloadFiles\<close> catches it: it logs the error and
  returns normally, so nothing is raised to its caller.
\<close>

theorem failure_stops_at_entry_point:
  "(downloadFile env folder l s = (Inl err, s')
      \<longrightarrow> last (trace s') = FailedToDownload (url l)
        \<and> downloadAllFiles env folder (l # rest) s = (Inl err, s'))
   \<and> (downloadAllFiles env folder ls s = (Inl err, s')
      \<longrightarrow> confirmAndDownloadFiles env folder True ls s
            = (Inr (), emit (ErrorDuringDownloadProcess err) s'))
   \<and> (\<forall>e. fst (confirmAndDownloadFiles env folder confirmed ls s) \<noteq> Inl e)"
  by (auto simp: confirmAndDownloadFiles_def dest: downloadFile_failed_last
      split: prod.splits sum.splits)

theorem failure_stops_at_entry_point_witness:
  "downloadAllFiles demoServer (js ''d'') [linkB] emptyFolder =
     (Inl NetworkError,
      \<lparr>files = Map.empty, trace = [Get (url linkB), FailedToDownload (url linkB)],
       outcomes = [(linkB, Failed)]\<rparr>)
   \<and> confirmAndDownloadFiles demoServer (js ''d'') True [linkB] emptyFolder =
     (Inr (),
      \<lparr>files = Map.empty,
       trace = [Get (url linkB), FailedToDownload (url linkB),
                ErrorDuringDownloadProcess NetworkError],
       outcomes = [(linkB, Failed)]\<rparr>)"
proof -
  let ?s = "\<lparr>files = Map.empty, trace = [Get (url linkB), FailedToDownload (url linkB)],
       outcomes = [(linkB, Failed)]\<rparr>"
  have b: "downloadFile demoServer (js ''d'') linkB emptyFolder = (Inl NetworkError, ?s)"
    by (simp add: downloadFile_def Let_def emit_def settle_def demoServer_def linkB_def
        emptyFolder_def js_def)
  note t = failure_stops_at_entry_point [of demoServer "js ''d''" linkB emptyFolder NetworkError ?s
      "[]" "[linkB]" True]
  from t b have all: "downloadAllFiles demoServer (js ''d'') [linkB] emptyFolder = (Inl NetworkError, ?s)"
    by blast
  with t have "confirmAndDownloadFiles demoServer (js ''d'') True [linkB] emptyFolder
            = (Inr (), emit (ErrorDuringDownloadProcess NetworkError) ?s)"
    by blast
  with all show ?thesis by (simp add: emit_def)
qed

text \<open>
  C7, as the claim states it, fails: the request for \<^verbatim>\<open>b.pdf\<close> is rejected and
  \<^verbatim>\<open>downloadAllFiles\<close> raises, yet \<^verbatim>\<open>confirmAndDownloadFiles\<close> returns normally.
\<close>

theorem failure_not_raised_counterexample:
  "fst (downloadAllFiles demoServer (js ''d'') [linkB] emptyFolder) = Inl NetworkError
   \<and> fst (confirmAndDownloadFiles demoServer (js ''d'') True [linkB] emptyFolder) = Inr ()"
  by (simp add: confirmAndDownloadFiles_def downloadFile_def Let_def emit_def settle_def
      demoServer_def linkB_def emptyFolder_def js_def)

text \<open>
  C2. When, for every reference, the request is answered with a \<^verbatim>\<open>content-length\<close> equal to
  the size of the file already at its destination, a confirmed
  \<^verbatim>\<open>confirmAndDownloadFiles\<close> returns normally, every outcome is skipped, the files are
  what they were, and the only effects are the requests that read the headers: nothing is
  unlinked, nothing is written and no pacing delay is taken.
\<close>

theorem rerun_skips_everything:
  assumes "\<forall>l \<in> set links. \<exists>resp h existing.
             axios_get env (url l) = Some resp
           \<and> files s (path_join env folder (filename l)) = Some existing
           \<and> content_length resp = Some h \<and> h \<noteq> []
           \<and> parseInt10 h = Some (int (length existing))"
  shows "confirmAndDownloadFiles env folder True links s =
           (Inr (), s\<lparr>trace := trace s @ map (\<lambda>l. Get (url l)) links,
                      outcomes := outcomes s @ map (\<lambda>l. (l, Skipped)) links\<rparr>)"
  using downloadAllFiles_all_skipped [OF assms] by (simp add: confirmAndDownloadFiles_def)

theorem rerun_skips_everything_witness:
  "confirmAndDownloadFiles demoServer (js ''d'') True [linkA, linkA] (folderWith [7, 7, 7]) =
     (Inr (),
      (folderWith [7, 7, 7])\<lparr>trace := [Get (url linkA), Get (url linkA)],
        outcomes := [(linkA, Skipped), (linkA, Skipped)]\<rparr>)"
proof -
  have "axios_get demoServer (url linkA) = Some \<lparr>content_length = Some (js ''3''), body = [1, 2, 3]\<rparr>
      \<and> files (folderWith [7, 7, 7]) (path_join demoServer (js ''d'') (filename linkA)) = Some [7, 7, 7]
      \<and> content_length \<lparr>content_length = Some (js ''3''), body = [1, 2, 3]\<rparr> = Some (js ''3'')
      \<and> js ''3'' \<noteq> []
      \<and> parseInt10 (js ''3'') = Some (int (length [7, 7, 7 :: 8 word]))"
    using demo_paths js_nonempty
    by (simp add: demo_parse_3 demoServer_def linkA_def folderWith_def) (simp add: js_def)
  then have "\<forall>l \<in> set [linkA, linkA]. \<exists>resp h existing.
             axios_get demoServer (url l) = Some resp
           \<and> files (folderWith [7, 7, 7]) (path_join demoServer (js ''d'') (filename l)) = Some existing
           \<and> content_length resp = Some h \<and> h \<noteq> []
           \<and> parseInt10 h = Some (int (length existing))"
    by (metis empty_iff empty_set set_ConsD)
  from rerun_skips_everything [OF this] show ?thesis
    by (simp add: folderWith_fresh)
qed

section \<open>Properties of the checkpoint format\<close>

lemma nat_lt_16_cases:
  fixes d :: nat
  assumes "d < 16"
  shows "d = 0 \<or> d = 1 \<or> d = 2 \<or> d = 3 \<or> d = 4 \<or> d = 5 \<or> d = 6 \<or> d = 7
    \<or> d = 8 \<or> d = 9 \<or> d = 10 \<or> d = 11 \<or> d = 12 \<or> d = 13 \<or> d = 14 \<or> d = 15"
  using assms by arith

lemma hexValue_hexDigit_num:
  "hexValue (hexDigit 0) = Some 0" "hexValue (hexDigit 1) = Some 1"
  "hexValue (hexDigit 2) = Some 2" "hexValue (hexDigit 3) = Some 3"
  "hexValue (hexDigit 4) = Some 4" "hexValue (hexDigit 5) = Some 5"
  "hexValue (hexDigit 6) = Some 6" "hexValue (hexDigit 7) = Some 7"
  "hexValue (hexDigit 8) = Some 8" "hexValue (hexDigit 9) = Some 9"
  "hexValue (hexDigit 10) = Some 10" "hexValue (hexDigit 11) = Some 11"
  "hexValue (hexDigit 12) = Some 12" "hexValue (hexDigit 13) = Some 13"
  "hexValue (hexDigit 14) = Some 14" "hexValue (hexDigit 15) = Some 15"
  by (simp_all add: hexValue_def hexDigit_def)

lemma hexValue_hexDigit: "d < 16 \<Longrightarrow> hexValue (hexDigit d) = Some d"
  using hexValue_hexDigit_num by (auto dest!: nat_lt_16_cases)

lemma hex_digits_value:
  fixes n :: nat
  shows "((n div 4096 * 16 + n div 256 mod 16) * 16 + n div 16 mod 16) * 16 + n mod 16 = n"
proof -
  have a: "n div 256 = n div 16 div 16" "n div 4096 = n div 16 div 16 div 16"
    by (simp_all add: div_mult2_eq)
  have "n = n div 16 * 16 + n mod 16" by simp
  moreover have "n div 16 = n div 16 div 16 * 16 + n div 16 mod 16" by simp
  moreover have "n div 16 div 16 = n div 16 div 16 div 16 * 16 + n div 16 div 16 mod 16" by simp
  ultimately show ?thesis unfolding a by presburger
qed

lemma unat_code_unit_bound: "unat (c :: code_unit) < 65536"
  using unsigned_less [of c, where 'a = nat] by simp


declare QuoteJSONChars.simps(2) [simp del] parseJSONChars.simps(2) [simp del]

lemma parse_u_escape:
  assumes "hexValue h1 = Some d1" "hexValue h2 = Some d2" "hexValue h3 = Some d3"
    "hexValue h4 = Some d4"
  shows "parseJSONChars (0x5C # 0x75 # h1 # h2 # h3 # h4 # rest)
     = (case parseJSONChars rest of
          None \<Rightarrow> None
        | Some (str, r) \<Rightarrow> Some (of_nat (((d1 * 16 + d2) * 16 + d3) * 16 + d4) # str, r))"
  using assms by (subst parseJSONChars.simps(2)) simp

lemma parse_UnicodeEscape:
  "parseJSONChars (UnicodeEscape c @ rest)
     = (case parseJSONChars rest of None \<Rightarrow> None | Some (str, r) \<Rightarrow> Some (c # str, r))"
proof -
  have lt: "unat c < 65536" by (rule unat_code_unit_bound)
  then have d1: "unat c div 4096 < 16" by simp
  have d2: "unat c div 256 mod 16 < 16" "unat c div 16 mod 16 < 16" "unat c mod 16 < 16"
    by simp_all
  have "parseJSONChars (UnicodeEscape c @ rest)
     = (case parseJSONChars rest of
          None \<Rightarrow> None
        | Some (str, r) \<Rightarrow>
            Some (of_nat (((unat c div 4096 * 16 + unat c div 256 mod 16) * 16
                            + unat c div 16 mod 16) * 16 + unat c mod 16) # str, r))"
    unfolding UnicodeEscape_def Let_def append_Cons append_Nil
    by (rule parse_u_escape) (simp_all only: hexValue_hexDigit d1 d2)
  moreover have "(word_of_nat (unat c) :: code_unit) = c" by simp
  ultimately show ?thesis unfolding hex_digits_value by (simp only:)
qed

lemma surrogate_not_special:
  assumes "isLeadingSurrogate c \<or> isTrailingSurrogate c"
  shows "c \<noteq> 0x08" "c \<noteq> 0x09" "c \<noteq> 0x0A" "c \<noteq> 0x0C" "c \<noteq> 0x0D" "c \<noteq> 0x22"
    "c \<noteq> 0x5C" "\<not> c < 0x20"
  using assms
  by (auto simp: isLeadingSurrogate_def isTrailingSurrogate_def word_le_nat_alt word_less_nat_alt)

lemma QuoteJSONChars_unit:
  assumes "\<not> (\<exists>d ds. cs = d # ds \<and> isLeadingSurrogate c \<and> isTrailingSurrogate d)"
  shows "QuoteJSONChars (c # cs) = quoteUnit c @ QuoteJSONChars cs"
proof (cases "isLeadingSurrogate c \<or> isTrailingSurrogate c")
  case True
  note ns = surrogate_not_special [OF True]
  show ?thesis
  proof (cases cs)
    case Nil
    then show ?thesis using ns True
      by (subst QuoteJSONChars.simps(2)) (auto simp: quoteUnit_def)
  next
    case (Cons d ds)
    then show ?thesis using ns True assms
      by (subst QuoteJSONChars.simps(2)) (auto simp: quoteUnit_def)
  qed
next
  case False
  then show ?thesis
    by (subst QuoteJSONChars.simps(2)) (simp add: quoteUnit_def)
qed

lemma QuoteJSONChars_pair:
  assumes "isLeadingSurrogate c" "isTrailingSurrogate d"
  shows "QuoteJSONChars (c # d # ds) = c # d # QuoteJSONChars ds"
  using surrogate_not_special [of c] assms
  by (subst QuoteJSONChars.simps(2)) simp

lemma parse_plain:
  "c \<noteq> 0x22 \<Longrightarrow> c \<noteq> 0x5C \<Longrightarrow> \<not> c < 0x20 \<Longrightarrow>
   parseJSONChars (c # X)
     = (case parseJSONChars X of None \<Rightarrow> None | Some (str, r) \<Rightarrow> Some (c # str, r))"
  by (subst parseJSONChars.simps(2)) simp

lemma parse_short_escape:
  "e \<noteq> 0x75 \<Longrightarrow> unescape e = Some u \<Longrightarrow>
   parseJSONChars (0x5C # e # X)
     = (case parseJSONChars X of None \<Rightarrow> None | Some (str, r) \<Rightarrow> Some (u # str, r))"
  by (subst parseJSONChars.simps(2)) simp

lemma parse_closing_quote: "parseJSONChars (0x22 # rest) = Some ([], rest)"
  by (subst parseJSONChars.simps(2)) simp

lemma parse_quoteUnit:
  "parseJSONChars (quoteUnit c @ X)
     = (case parseJSONChars X of None \<Rightarrow> None | Some (str, r) \<Rightarrow> Some (c # str, r))"
proof -
  consider "c = 0x08" | "c = 0x09" | "c = 0x0A" | "c = 0x0C" | "c = 0x0D" | "c = 0x22" | "c = 0x5C"
    | "c \<noteq> 0x08" "c \<noteq> 0x09" "c \<noteq> 0x0A" "c \<noteq> 0x0C" "c \<noteq> 0x0D" "c \<noteq> 0x22" "c \<noteq> 0x5C"
      "c < 0x20 \<or> isLeadingSurrogate c \<or> isTrailingSurrogate c"
    | "c \<noteq> 0x08" "c \<noteq> 0x09" "c \<noteq> 0x0A" "c \<noteq> 0x0C" "c \<noteq> 0x0D" "c \<noteq> 0x22" "c \<noteq> 0x5C"
      "\<not> (c < 0x20 \<or> isLeadingSurrogate c \<or> isTrailingSurrogate c)"
    by blast
  then show ?thesis
  proof cases
    case 8
    then have "quoteUnit c = UnicodeEscape c" by (simp add: quoteUnit_def)
    then show ?thesis by (simp only: parse_UnicodeEscape)
  next
    case 9
    then have "quoteUnit c = [c]" by (simp add: quoteUnit_def)
    with 9 show ?thesis by (simp add: parse_plain)
  qed (auto simp: quoteUnit_def parse_short_escape unescape_def)
qed

lemma parse_pair:
  assumes "isLeadingSurrogate c" "isTrailingSurrogate d"
  shows "parseJSONChars (c # d # X)
     = (case parseJSONChars X of None \<Rightarrow> None | Some (str, r) \<Rightarrow> Some (c # d # str, r))"
proof -
  have "parseJSONChars (c # d # X)
     = (case parseJSONChars (d # X) of None \<Rightarrow> None | Some (str, r) \<Rightarrow> Some (c # str, r))"
    using surrogate_not_special [of c] assms(1) by (intro parse_plain) simp_all
  moreover have "parseJSONChars (d # X)
     = (case parseJSONChars X of None \<Rightarrow> None | Some (str, r) \<Rightarrow> Some (d # str, r))"
    using surrogate_not_special [of d] assms(2) by (intro parse_plain) simp_all
  ultimately show ?thesis by (simp split: option.splits)
qed

lemma parse_quoted:
  "parseJSONChars (QuoteJSONChars s @ 0x22 # rest) = Some (s, rest)"
proof (induction s arbitrary: rest rule: length_induct)
  case (1 s)
  show ?case
  proof (cases s)
    case Nil
    then show ?thesis by (simp add: parse_closing_quote)
  next
    case (Cons c cs)
    have IH: "parseJSONChars (QuoteJSONChars t @ 0x22 # rest) = Some (t, rest)"
      if "length t \<le> length cs" for t
      using 1 that Cons by simp
    show ?thesis
    proof (cases "\<exists>d ds. cs = d # ds \<and> isLeadingSurrogate c \<and> isTrailingSurrogate d")
      case True
      then obtain d ds where p: "cs = d # ds" "isLeadingSurrogate c" "isTrailingSurrogate d"
        by blast
      have "parseJSONChars (QuoteJSONChars s @ 0x22 # rest)
            = parseJSONChars (c # d # (QuoteJSONChars ds @ 0x22 # rest))"
        by (simp add: Cons p(1) QuoteJSONChars_pair [OF p(2,3)])
      also have "\<dots> = (case parseJSONChars (QuoteJSONChars ds @ 0x22 # rest) of
                          None \<Rightarrow> None | Some (str, r) \<Rightarrow> Some (c # d # str, r))"
        by (rule parse_pair [OF p(2,3)])
      also have "\<dots> = Some (s, rest)"
        using IH [of ds] by (simp add: Cons p(1))
      finally show ?thesis .
    next
      case False
      have "parseJSONChars (QuoteJSONChars s @ 0x22 # rest)
            = parseJSONChars (quoteUnit c @ (QuoteJSONChars cs @ 0x22 # rest))"
        by (simp add: Cons QuoteJSONChars_unit [OF False])
      also have "\<dots> = (case parseJSONChars (QuoteJSONChars cs @ 0x22 # rest) of
                          None \<Rightarrow> None | Some (str, r) \<Rightarrow> Some (c # str, r))"
        by (rule parse_quoteUnit)
      also have "\<dots> = Some (s, rest)"
        using IH [of cs] by (simp add: Cons)
      finally show ?thesis .
    qed
  qed
qed

declare utf8_reread.simps(2) [simp del]

lemma utf8_plain:
  "\<not> isLeadingSurrogate c \<Longrightarrow> \<not> isTrailingSurrogate c \<Longrightarrow>
   utf8_reread (c # cs) = c # utf8_reread cs"
  by (subst utf8_reread.simps(2)) simp

lemma utf8_pair:
  "isLeadingSurrogate c \<Longrightarrow> isTrailingSurrogate d \<Longrightarrow>
   utf8_reread (c # d # ds) = c # d # utf8_reread ds"
  by (subst utf8_reread.simps(2)) simp

lemma utf8_noSurrogate: "noSurrogate a \<Longrightarrow> utf8_reread (a @ t) = a @ utf8_reread t"
  by (induction a) (simp_all add: noSurrogate_def utf8_plain)

lemma noSurrogate_ascii: "c < 0x80 \<Longrightarrow> \<not> isLeadingSurrogate c \<and> \<not> isTrailingSurrogate c"
  by (auto simp: isLeadingSurrogate_def isTrailingSurrogate_def word_le_nat_alt word_less_nat_alt)

lemma hexDigit_ascii: "d < 16 \<Longrightarrow> hexDigit d < 0x80"
  by (drule nat_lt_16_cases) (auto simp: hexDigit_def)

lemma noSurrogate_UnicodeEscape: "noSurrogate (UnicodeEscape c)"
proof -
  have lt: "unat c < 65536" by (rule unat_code_unit_bound)
  then have d1: "unat c div 4096 < 16" by simp
  have d2: "unat c div 256 mod 16 < 16" "unat c div 16 mod 16 < 16" "unat c mod 16 < 16"
    by simp_all
  show ?thesis
    using hexDigit_ascii [OF d1] hexDigit_ascii [OF d2(1)] hexDigit_ascii [OF d2(2)]
      hexDigit_ascii [OF d2(3)]
    by (simp add: noSurrogate_def UnicodeEscape_def Let_def noSurrogate_ascii)
qed

lemma noSurrogate_quoteUnit: "noSurrogate (quoteUnit c)"
proof -
  have "quoteUnit c = UnicodeEscape c \<or> quoteUnit c = [c] \<and> \<not> isLeadingSurrogate c \<and> \<not> isTrailingSurrogate c
      \<or> (\<exists>e. quoteUnit c = [0x5C, e] \<and> e < 0x80)"
    by (auto simp: quoteUnit_def)
  then show ?thesis
    using noSurrogate_UnicodeEscape [of c]
    by (auto simp: noSurrogate_def noSurrogate_ascii)
qed

lemma utf8_quoted: "utf8_reread (QuoteJSONChars s @ t) = QuoteJSONChars s @ utf8_reread t"
proof (induction s rule: length_induct)
  case (1 s)
  show ?case
  proof (cases s)
    case Nil
    then show ?thesis by simp
  next
    case (Cons c cs)
    have IH: "utf8_reread (QuoteJSONChars u @ t) = QuoteJSONChars u @ utf8_reread t"
      if "length u \<le> length cs" for u
      using 1 that Cons by simp
    show ?thesis
    proof (cases "\<exists>d ds. cs = d # ds \<and> isLeadingSurrogate c \<and> isTrailingSurrogate d")
      case True
      then obtain d ds where p: "cs = d # ds" "isLeadingSurrogate c" "isTrailingSurrogate d"
        by blast
      show ?thesis
        using IH [of ds]
        by (simp add: Cons p(1) QuoteJSONChars_pair [OF p(2,3)] utf8_pair [OF p(2,3)])
    next
      case False
      have "noSurrogate (quoteUnit c)" by (rule noSurrogate_quoteUnit)
      then show ?thesis
        using IH [of cs]
        by (simp add: Cons QuoteJSONChars_unit [OF False] utf8_noSurrogate)
    qed
  qed
qed

lemma utf8_QuoteJSONString:
  "utf8_reread (QuoteJSONString s @ t) = QuoteJSONString s @ utf8_reread t"
proof -
  have q: "utf8_reread (0x22 # x) = 0x22 # utf8_reread x" for x
    by (rule utf8_plain) (simp_all add: isLeadingSurrogate_def isTrailingSurrogate_def)
  show ?thesis
    by (simp add: QuoteJSONString_def q utf8_quoted)
qed

lemma noSurrogate_literals:
  "noSurrogate (js ''{'')" "noSurrogate (js '':'')" "noSurrogate (js '','')"
  "noSurrogate (js ''}'')" "noSurrogate (js ''  '')" "noSurrogate [0x2C, 0x0A]"
  "noSurrogate [0x5B, 0x0A]" "noSurrogate [0x0A, 0x5D]"
  by (simp_all add: noSurrogate_def js_def isLeadingSurrogate_def isTrailingSurrogate_def)

lemma utf8_stringifyFileLink:
  "utf8_reread (stringifyFileLink l @ t) = stringifyFileLink l @ utf8_reread t"
  by (simp only: stringifyFileLink_def append_assoc utf8_noSurrogate [OF noSurrogate_literals(1)]
      utf8_noSurrogate [OF noSurrogate_literals(2)] utf8_noSurrogate [OF noSurrogate_literals(3)]
      utf8_noSurrogate [OF noSurrogate_literals(4)] utf8_QuoteJSONString)

lemma join_Cons: "join sep (x # xs) = x @ concat (map (\<lambda>y. sep @ y) xs)"
  by (induction xs arbitrary: x) simp_all

lemma jsonLines_Nil: "jsonLines [] = [0x5B, 0x0A, 0x0A, 0x5D]"
  by (simp add: jsonLines_def)

lemma jsonLines_Cons:
  "jsonLines (l # ls)
     = [0x5B, 0x0A] @ js ''  '' @ stringifyFileLink l @ itemsTail ls @ [0x0A, 0x5D]"
  by (simp add: jsonLines_def join_Cons itemsTail_def comp_def)

lemma utf8_itemsTail: "utf8_reread (itemsTail ls @ t) = itemsTail ls @ utf8_reread t"
proof (induction ls)
  case Nil
  then show ?case by (simp add: itemsTail_def)
next
  case (Cons l ls)
  have "itemsTail (l # ls) = [0x2C, 0x0A] @ js ''  '' @ stringifyFileLink l @ itemsTail ls"
    by (simp add: itemsTail_def)
  then show ?case
    using Cons
    by (simp only: append_assoc utf8_noSurrogate [OF noSurrogate_literals(5)]
        utf8_noSurrogate [OF noSurrogate_literals(6)] utf8_stringifyFileLink)
qed

lemma utf8_jsonLines: "utf8_reread (jsonLines fileLinks) = jsonLines fileLinks"
proof (cases fileLinks)
  case Nil
  have "utf8_reread ([0x5B, 0x0A] @ [0x0A, 0x5D] @ []) = [0x5B, 0x0A] @ [0x0A, 0x5D] @ utf8_reread []"
    by (simp only: utf8_noSurrogate [OF noSurrogate_literals(7)]
        utf8_noSurrogate [OF noSurrogate_literals(8)])
  then show ?thesis using Nil by (simp add: jsonLines_Nil)
next
  case (Cons l ls)
  have "utf8_reread ([0x5B, 0x0A] @ js ''  '' @ stringifyFileLink l @ itemsTail ls @ [0x0A, 0x5D] @ [])
        = [0x5B, 0x0A] @ js ''  '' @ stringifyFileLink l @ itemsTail ls @ [0x0A, 0x5D] @ utf8_reread []"
    by (simp only: utf8_noSurrogate [OF noSurrogate_literals(7)]
        utf8_noSurrogate [OF noSurrogate_literals(5)]
        utf8_noSurrogate [OF noSurrogate_literals(8)] utf8_stringifyFileLink utf8_itemsTail)
  then show ?thesis using Cons by (simp add: jsonLines_Cons)
qed

lemma skipWhiteSpace_ws:
  "list_all isJSONWhiteSpace ws \<Longrightarrow> skipWhiteSpace (ws @ s) = skipWhiteSpace s"
  by (induction ws) (simp_all add: skipWhiteSpace_def)

lemma skipWhiteSpace_non:
  "\<not> isJSONWhiteSpace c \<Longrightarrow> skipWhiteSpace (c # s) = c # s"
  by (simp add: skipWhiteSpace_def)

lemma not_ws:
  "\<not> isJSONWhiteSpace 0x22" "\<not> isJSONWhiteSpace 0x2C" "\<not> isJSONWhiteSpace 0x3A"
  "\<not> isJSONWhiteSpace 0x5B" "\<not> isJSONWhiteSpace 0x5D" "\<not> isJSONWhiteSpace 0x7B"
  "\<not> isJSONWhiteSpace 0x7D"
  by (simp_all add: isJSONWhiteSpace_def)

lemma parseValue_ws:
  "list_all isJSONWhiteSpace ws \<Longrightarrow> parseValue n (ws @ s) = parseValue n s"
  by (cases n) (simp_all add: skipWhiteSpace_ws)

lemma parseValue_string:
  "parseValue (Suc n) (0x22 # QuoteJSONChars s @ 0x22 # rest) = Some (JString s, rest)"
  by (simp add: skipWhiteSpace_non not_ws parse_quoted)

lemma parseMembers_last:
  "parseMembers (Suc (Suc n))
     (0x22 # QuoteJSONChars k @ 0x22 # 0x3A # 0x22 # QuoteJSONChars v @ 0x22 # 0x7D # rest)
   = Some ([(k, JString v)], rest)"
  by (simp add: skipWhiteSpace_non not_ws parse_quoted parseValue_string del: parseValue.simps)

lemma parseMembers_two:
  "parseMembers (Suc (Suc (Suc n)))
     (0x22 # QuoteJSONChars k1 @ 0x22 # 0x3A # 0x22 # QuoteJSONChars v1 @ 0x22 # 0x2C
      # 0x22 # QuoteJSONChars k2 @ 0x22 # 0x3A # 0x22 # QuoteJSONChars v2 @ 0x22 # 0x7D # rest)
   = Some ([(k1, JString v1), (k2, JString v2)], rest)"
  by (subst parseMembers.simps)
     (simp add: skipWhiteSpace_non not_ws parse_quoted parseValue_string parseMembers_last
        del: parseValue.simps parseMembers.simps)

lemma stringifyFileLink_unfold:
  "stringifyFileLink l @ rest =
     0x7B # 0x22 # QuoteJSONChars (js ''url'') @ 0x22 # 0x3A # 0x22 # QuoteJSONChars (url l) @ 0x22
     # 0x2C # 0x22 # QuoteJSONChars (js ''filename'') @ 0x22 # 0x3A # 0x22
     # QuoteJSONChars (filename l) @ 0x22 # 0x7D # rest"
  by (simp add: stringifyFileLink_def QuoteJSONString_def js_def)

lemma makeObject_two:
  "k1 \<noteq> k2 \<Longrightarrow> makeObject [(k1, v1), (k2, v2)] = [(k1, v1), (k2, v2)]"
  by (simp add: makeObject_def)

lemma url_neq_filename: "js ''url'' \<noteq> js ''filename''"
  by (simp add: js_def)

lemma parseValue_link:
  "parseValue (Suc (Suc (Suc (Suc n)))) (stringifyFileLink l @ rest) = Some (jsonOfFileLink l, rest)"
  unfolding stringifyFileLink_unfold
  by (subst parseValue.simps)
     (simp add: skipWhiteSpace_non not_ws parseMembers_two makeObject_two url_neq_filename
        jsonOfFileLink_def del: parseValue.simps parseMembers.simps)

lemma itemsTail_Cons:
  "itemsTail (l # ls) = 0x2C # [0x0A, 0x20, 0x20] @ stringifyFileLink l @ itemsTail ls"
  by (simp add: itemsTail_def js_def)

lemma parseElements_items:
  "length ls + 5 \<le> n \<Longrightarrow> list_all isJSONWhiteSpace ws \<Longrightarrow>
   parseElements n (ws @ stringifyFileLink l @ itemsTail ls @ 0x0A # 0x5D # rest)
     = Some (map jsonOfFileLink (l # ls), rest)"
proof (induction ls arbitrary: l n ws)
  case Nil
  define m where "m = n - 5"
  have n: "n = Suc (Suc (Suc (Suc (Suc m))))"
    using Nil.prems(1) unfolding m_def by simp
  have "parseValue (Suc (Suc (Suc (Suc m)))) (ws @ stringifyFileLink l @ 0x0A # 0x5D # rest)
        = Some (jsonOfFileLink l, 0x0A # 0x5D # rest)"
    using Nil.prems(2) by (simp only: parseValue_ws parseValue_link)
  then show ?case
    unfolding n
    by (subst parseElements.simps)
       (simp add: itemsTail_def skipWhiteSpace_def isJSONWhiteSpace_def
          del: parseValue.simps parseElements.simps)
next
  case (Cons l' ls)
  define m where "m = n - 5"
  have n: "n = Suc (Suc (Suc (Suc (Suc m))))"
    and m: "length ls + 5 \<le> Suc (Suc (Suc (Suc m)))"
    using Cons.prems(1) unfolding m_def by simp_all
  let ?next = "stringifyFileLink l' @ itemsTail ls @ 0x0A # 0x5D # rest"
  have v: "parseValue (Suc (Suc (Suc (Suc m))))
             (ws @ stringifyFileLink l @ 0x2C # 0x0A # 0x20 # 0x20 # ?next)
           = Some (jsonOfFileLink l, 0x2C # 0x0A # 0x20 # 0x20 # ?next)"
    using Cons.prems(2) by (simp only: parseValue_ws parseValue_link)
  have ws: "list_all isJSONWhiteSpace [0x0A, 0x20, 0x20]"
    by (simp add: isJSONWhiteSpace_def)
  have "parseElements (Suc (Suc (Suc (Suc m)))) ([0x0A, 0x20, 0x20] @ ?next)
           = Some (map jsonOfFileLink (l' # ls), rest)"
    by (rule Cons.IH [OF m ws])
  then have r: "parseElements (Suc (Suc (Suc (Suc m)))) (0x0A # 0x20 # 0x20 # ?next)
           = Some (map jsonOfFileLink (l' # ls), rest)"
    by simp
  have "parseElements n (ws @ stringifyFileLink l @ 0x2C # 0x0A # 0x20 # 0x20 # ?next)
          = Some (map jsonOfFileLink (l # l' # ls), rest)"
    unfolding n
    by (subst parseElements.simps)
       (simp add: v r skipWhiteSpace_non not_ws del: parseValue.simps parseElements.simps)
  then show ?case by (simp add: itemsTail_Cons)
qed

lemma length_itemsTail: "length ls \<le> length (itemsTail ls)"
  by (induction ls) (simp_all add: itemsTail_def)

lemma parseValue_array:
  "skipWhiteSpace cs = d # ds \<Longrightarrow> d \<noteq> 0x5D \<Longrightarrow>
   parseValue (Suc n) (0x5B # cs)
     = (case parseElements n (d # ds) of None \<Rightarrow> None | Some (vs, r) \<Rightarrow> Some (JArray vs, r))"
  by (simp add: skipWhiteSpace_non not_ws)

lemma JSON_parse_jsonLines: "JSON_parse (jsonLines fileLinks) = Some (jsonOfFileLinks fileLinks)"
proof (cases fileLinks)
  case Nil
  then show ?thesis
    by (simp add: jsonLines_Nil JSON_parse_def skipWhiteSpace_def isJSONWhiteSpace_def
        jsonOfFileLinks_def)
next
  case (Cons l ls)
  let ?items = "stringifyFileLink l @ itemsTail ls @ 0x0A # 0x5D # []"
  have shape: "jsonLines fileLinks = 0x5B # [0x0A, 0x20, 0x20] @ ?items"
    by (simp add: Cons jsonLines_Cons js_def)
  obtain x where x: "?items = 0x7B # x"
    by (simp add: stringifyFileLink_unfold)
  have "list_all isJSONWhiteSpace [0x0A, 0x20, 0x20]"
    by (simp add: isJSONWhiteSpace_def)
  then have skip: "skipWhiteSpace ([0x0A, 0x20, 0x20] @ ?items) = 0x7B # x"
    by (simp only: skipWhiteSpace_ws x) (simp add: skipWhiteSpace_non not_ws)
  have fuel: "length ls + 5 \<le> length (jsonLines fileLinks)"
    using length_itemsTail [of ls] unfolding shape by simp
  have "parseElements (length (jsonLines fileLinks)) ([] @ ?items)
          = Some (map jsonOfFileLink (l # ls), [])"
    using fuel by (intro parseElements_items) simp_all
  then have elems: "parseElements (length (jsonLines fileLinks)) (0x7B # x)
          = Some (map jsonOfFileLink fileLinks, [])"
    by (simp add: x Cons)
  have "parseValue (Suc (length (jsonLines fileLinks))) (0x5B # [0x0A, 0x20, 0x20] @ ?items)
          = Some (JArray (map jsonOfFileLink fileLinks), [])"
    by (subst parseValue_array [OF skip]) (simp_all add: elems)
  then have "parseValue (Suc (length (jsonLines fileLinks))) (jsonLines fileLinks)
          = Some (JArray (map jsonOfFileLink fileLinks), [])"
    by (simp only: shape [symmetric])
  then show ?thesis
    unfolding JSON_parse_def
    by (simp add: jsonOfFileLinks_def skipWhiteSpace_def del: parseValue.simps)
qed

lemma fileLinkOfJson_inverse: "fileLinkOfJson (jsonOfFileLink l) = Some l"
  using url_neq_filename by (auto simp: fileLinkOfJson_def jsonOfFileLink_def)

lemma fileLinksOfJson_inverse: "fileLinksOfJson (jsonOfFileLinks ls) = Some ls"
proof -
  have "fileLinksOfElements (map jsonOfFileLink ls) = Some ls"
    by (induction ls) (simp_all add: fileLinkOfJson_inverse)
  then show ?thesis by (simp add: fileLinksOfJson_def jsonOfFileLinks_def)
qed

section \<open>Properties of the walk\<close>

lemma isDuplicatePage_iff: "isDuplicatePage a b \<longleftrightarrow> a = b"
proof
  assume "isDuplicatePage a b"
  then have len: "length a = length b"
    and all: "\<forall>i < length a. url (a ! i) = url (b ! i) \<and> filename (a ! i) = filename (b ! i)"
    by (auto simp: isDuplicatePage_def list_all_iff)
  show "a = b"
  proof (rule nth_equalityI [OF len])
    fix i assume "i < length a"
    with all show "a ! i = b ! i" by simp
  qed
next
  assume "a = b"
  then show "isDuplicatePage a b" by (simp add: isDuplicatePage_def list_all_iff)
qed

lemma pageWalk_halts:
  "halts env cfg lastPageLinks page \<Longrightarrow>
   pageWalk env cfg page lastPageLinks fileLinks fetched
     = Some (lastStep env cfg lastPageLinks fileLinks page, fetched @ [page])"
  by (subst pageWalk.simps) (auto simp: halts_def lastStep_def split: sum.splits)

lemma pageWalk_continues:
  "\<not> halts env cfg lastPageLinks page \<Longrightarrow>
   pageWalk env cfg page lastPageLinks fileLinks fetched
     = pageWalk env cfg (page + 1) (pageLinks env cfg page)
         (fileLinks @ pageLinks env cfg page) (fetched @ [page])"
  by (subst pageWalk.simps) (auto simp: halts_def pageLinks_def split: sum.splits)

lemma pageWalk_until:
  assumes "page \<le> N"
    and "page = N \<Longrightarrow> halts env cfg lastPageLinks N"
    and "page < N \<Longrightarrow> halts env cfg (pageLinks env cfg (N - 1)) N"
  shows "\<exists>q. page \<le> q \<and> q \<le> N
            \<and> pageWalk env cfg page lastPageLinks fileLinks fetched
                = Some (lastStep env cfg
                          (if q = page then lastPageLinks else pageLinks env cfg (q - 1))
                          (fileLinks @ concat (map (pageLinks env cfg) [page..q - 1])) q,
                        fetched @ [page..q])"
  using assms
proof (induction "nat (N - page)" arbitrary: page lastPageLinks fileLinks fetched)
  case 0
  then have "page = N" by simp
  with "0.prems" have "halts env cfg lastPageLinks page" by simp
  from pageWalk_halts [OF this] show ?case
    using \<open>page = N\<close> by (intro exI [of _ page]) simp
next
  case (Suc k)
  then have lt: "page < N" by linarith
  show ?case
  proof (cases "halts env cfg lastPageLinks page")
    case True
    from pageWalk_halts [OF this] show ?thesis
      using lt by (intro exI [of _ page]) simp
  next
    case False
    have k: "k = nat (N - (page + 1))" using Suc.hyps(2) by linarith
    have le: "page + 1 \<le> N" using lt by simp
    have h1: "page + 1 = N \<Longrightarrow> halts env cfg (pageLinks env cfg page) N"
      using Suc.prems(3) [OF lt] by auto
    have h2: "page + 1 < N \<Longrightarrow> halts env cfg (pageLinks env cfg (N - 1)) N"
      using Suc.prems(3) [OF lt] by simp
    from Suc.hyps(1) [OF k le h1 h2, of "fileLinks @ pageLinks env cfg page" "fetched @ [page]"]
    obtain q where q: "page + 1 \<le> q" "q \<le> N"
      and w: "pageWalk env cfg (page + 1) (pageLinks env cfg page)
                (fileLinks @ pageLinks env cfg page) (fetched @ [page])
              = Some (lastStep env cfg
                        (if q = page + 1 then pageLinks env cfg page else pageLinks env cfg (q - 1))
                        ((fileLinks @ pageLinks env cfg page)
                           @ concat (map (pageLinks env cfg) [page + 1..q - 1])) q,
                      (fetched @ [page]) @ [page + 1..q])"
      by blast
    have a: "(if q = page + 1 then pageLinks env cfg page else pageLinks env cfg (q - 1))
             = (if q = page then lastPageLinks else pageLinks env cfg (q - 1))"
      using q by auto
    have b: "[page..q - 1] = page # [page + 1..q - 1]"
      using q by (simp add: upto_rec1)
    have c: "[page..q] = page # [page + 1..q]"
      using q by (simp add: upto_rec1)
    show ?thesis
      using q w by (intro exI [of _ q]) (simp add: pageWalk_continues [OF False] a b c)
  qed
qed

lemma fetchAllFileLinks_fresh:
  "checkpoint = None \<or> \<not> userChoice \<Longrightarrow>
   fetchAllFileLinks env cfg userChoice checkpoint = walkAndSave env cfg checkpoint"
  by (auto simp: fetchAllFileLinks_def split: option.splits)

lemma walkAndSave_Raised:
  "pageWalk env cfg (startPage cfg) [] [] [] = Some (Raised err, pages) \<Longrightarrow>
   walkAndSave env cfg checkpoint =
     Some \<lparr>result = Inl err, fetchedPages = pages, stoppedBy = None, checkpointAfter = checkpoint\<rparr>"
  by (simp add: walkAndSave_def)

lemma walkAndSave_Stopped:
  "pageWalk env cfg (startPage cfg) [] [] [] = Some (Stopped why fileLinks, pages) \<Longrightarrow>
   walkAndSave env cfg checkpoint =
     Some (case checkpoint_fault env of
             None \<Rightarrow> \<lparr>result = Inr (Walked fileLinks), fetchedPages = pages, stoppedBy = Some why,
                       checkpointAfter = Some (utf8_reread (jsonLines fileLinks))\<rparr>
           | Some left \<Rightarrow> \<lparr>result = Inl PersistError, fetchedPages = pages, stoppedBy = Some why,
                            checkpointAfter = left\<rparr>)"
  by (simp add: walkAndSave_def saveFileLinksToJson_def split: option.splits)

lemma walkAndSave_pages:
  assumes "pageWalk env cfg (startPage cfg) [] [] [] = Some (e, pages)"
  shows "\<exists>run. walkAndSave env cfg checkpoint = Some run \<and> fetchedPages run = pages
           \<and> stoppedBy run = (case e of Raised err \<Rightarrow> None | Stopped why fileLinks \<Rightarrow> Some why)
           \<and> (\<forall>why fileLinks. e = Stopped why fileLinks \<and> checkpoint_fault env = None
                 \<longrightarrow> result run = Inr (Walked fileLinks)
                   \<and> checkpointAfter run = Some (jsonLines fileLinks))"
proof (cases e)
  case (Raised err)
  with assms show ?thesis by (simp add: walkAndSave_Raised)
next
  case (Stopped why fileLinks)
  with assms show ?thesis
    by (simp add: walkAndSave_Stopped utf8_jsonLines split: option.splits)
qed

lemma walkAndSave_until:
  assumes "startPage cfg \<le> N"
    and "startPage cfg = N \<Longrightarrow> halts env cfg [] N"
    and "startPage cfg < N \<Longrightarrow> halts env cfg (pageLinks env cfg (N - 1)) N"
  shows "\<exists>run q. walkAndSave env cfg checkpoint = Some run
           \<and> startPage cfg \<le> q \<and> q \<le> N \<and> fetchedPages run = [startPage cfg..q]
           \<and> stoppedBy run =
               (case lastStep env cfg (if q = startPage cfg then [] else pageLinks env cfg (q - 1))
                       (concat (map (pageLinks env cfg) [startPage cfg..q - 1])) q
                of Raised err \<Rightarrow> None | Stopped why fileLinks \<Rightarrow> Some why)
           \<and> (\<forall>why fileLinks.
                 lastStep env cfg (if q = startPage cfg then [] else pageLinks env cfg (q - 1))
                   (concat (map (pageLinks env cfg) [startPage cfg..q - 1])) q = Stopped why fileLinks
                 \<and> checkpoint_fault env = None
                 \<longrightarrow> result run = Inr (Walked fileLinks)
                   \<and> checkpointAfter run = Some (jsonLines fileLinks))"
proof -
  from pageWalk_until [OF assms(1), of env cfg "[]" "[]" "[]"] assms(2,3)
  obtain q where q: "startPage cfg \<le> q" "q \<le> N"
    and w: "pageWalk env cfg (startPage cfg) [] [] []
            = Some (lastStep env cfg (if q = startPage cfg then [] else pageLinks env cfg (q - 1))
                      (concat (map (pageLinks env cfg) [startPage cfg..q - 1])) q,
                    [startPage cfg..q])"
    by auto
  from walkAndSave_pages [OF w, of checkpoint] q show ?thesis
    by blast
qed

lemma walk_ends_by_short_page:
  assumes "startPage cfg \<le> N"
    and "getFileLinksFromPage env cfg N = Inr ls"
    and "int (length ls) < maxItemsPerPage cfg"
  shows "\<exists>run q. walkAndSave env cfg checkpoint = Some run
           \<and> startPage cfg \<le> q \<and> q \<le> N \<and> fetchedPages run = [startPage cfg..q]
           \<and> (q = N \<longrightarrow> stoppedBy run
                 = Some (if isDuplicatePage (if N = startPage cfg then [] else pageLinks env cfg (N - 1)) ls
                         then DuplicatePage else ShortPage))"
proof -
  have h: "halts env cfg lastPageLinks N" for lastPageLinks
    using assms(2,3) by (simp add: halts_def)
  from walkAndSave_until [OF assms(1) h h, of checkpoint]
  obtain run q where run: "walkAndSave env cfg checkpoint = Some run" "q \<le> N"
      "fetchedPages run = [startPage cfg..q]"
      "stoppedBy run =
               (case lastStep env cfg (if q = startPage cfg then [] else pageLinks env cfg (q - 1))
                       (concat (map (pageLinks env cfg) [startPage cfg..q - 1])) q
                of Raised err \<Rightarrow> None | Stopped why fileLinks \<Rightarrow> Some why)"
      "startPage cfg \<le> q"
    by blast
  have "q = N \<Longrightarrow> stoppedBy run
          = Some (if isDuplicatePage (if N = startPage cfg then [] else pageLinks env cfg (N - 1)) ls
                  then DuplicatePage else ShortPage)"
    using run(4) assms(2) by (simp add: lastStep_def)
  with run show ?thesis by blast
qed

lemma extractLinks_before_failure:
  assumes "\<forall>(h, t) \<in> set before. \<forall>e. extractFileUrl env cfg h \<noteq> Inl e"
    and "extractFileUrl env cfg href = Inl err"
  shows "extractLinks env cfg (before @ (href, title) # after) fileLinks
           = extractLinks env cfg before fileLinks"
  using assms
proof (induction before arbitrary: fileLinks)
  case Nil
  then show ?case by simp
next
  case (Cons a before)
  obtain h t where a: "a = (h, t)" by (cases a)
  with Cons.prems(1) obtain fileUrl where u: "extractFileUrl env cfg h = Inr fileUrl"
    by (cases "extractFileUrl env cfg h") auto
  from Cons.prems have rest: "\<forall>(h, t) \<in> set before. \<forall>e. extractFileUrl env cfg h \<noteq> Inl e"
    by simp
  show ?case
    using Cons.IH [OF rest Cons.prems(2)]
    by (simp add: a u split: option.splits)
qed

lemma getFileLinksFromPage_caught:
  "launches (render env page) \<Longrightarrow> closes (render env page) \<Longrightarrow>
   getFileLinksFromPage env cfg page
     = Inr (case anchors (render env page) of None \<Rightarrow> [] | Some links \<Rightarrow> extractLinks env cfg links [])"
  by (simp add: getFileLinksFromPage_def Let_def)

text \<open>The example sites.\<close>

lemma site_render [simp]:
  "launches (render (site pages) p)" "closes (render (site pages) p)"
  "anchors (render (site pages) p) = pages p"
  by (simp_all add: site_def)

lemma site_good_links:
  "getFileLinksFromPage (site pages) cfg p =
     Inr (case pages p of None \<Rightarrow> [] | Some links \<Rightarrow> extractLinks (site pages) cfg links [])"
  by (simp add: getFileLinksFromPage_caught)

lemma site_twoAnchors: "extractLinks (site pages) cfg twoAnchors [] = [linkA, linkB]"
  by (simp add: site_def twoAnchors_def extractFileUrl_def extractFileNameFromTitle_def
      linkA_def linkB_def js_def)

lemma site_broken_href: "extractFileUrl (site pages) cfg (js ''//'') = Inl InvalidUrl"
  by (simp add: site_def extractFileUrl_def js_def)

lemma site_good_href: "extractFileUrl (site pages) cfg (js ''http://h/a.pdf'') = Inr (Some (js ''http://h/a.pdf''))"
  by (simp add: site_def extractFileUrl_def js_def)

lemma site_broken_page:
  "extractLinks (site pages) cfg [(js ''http://h/a.pdf'', js ''a.pdf''), (js ''//'', js ''b.pdf'')] []
     = [linkA]"
  by (simp add: site_def extractFileUrl_def extractFileNameFromTitle_def linkA_def js_def)

lemma listing_size: "maxItemsPerPage (listing n) = n"
  by (simp add: listing_def)

lemma walk_repeating:
  "pageWalk (site repeatingPages) (listing 2) 1 [] [] []
     = Some (Stopped DuplicatePage [linkA, linkB], [1, 2])"
proof -
  have p: "getFileLinksFromPage (site repeatingPages) (listing 2) q = Inr [linkA, linkB]" for q
    by (simp add: site_good_links repeatingPages_def site_twoAnchors)
  have 1: "\<not> halts (site repeatingPages) (listing 2) [] 1"
    by (simp add: halts_def p isDuplicatePage_iff listing_size)
  have 2: "halts (site repeatingPages) (listing 2) [linkA, linkB] 2"
    by (simp add: halts_def p isDuplicatePage_iff)
  show ?thesis
    using pageWalk_halts [OF 2, of "[linkA, linkB]" "[1]"]
    by (simp add: pageWalk_continues [OF 1] pageLinks_def p lastStep_def isDuplicatePage_iff)
qed

lemma walk_failing_after_first:
  "pageWalk (site failingAfterFirst) (listing 2) 1 [] [] []
     = Some (Stopped ShortPage [linkA, linkB], [1, 2])"
proof -
  have p1: "getFileLinksFromPage (site failingAfterFirst) (listing 2) 1 = Inr [linkA, linkB]"
    by (simp add: site_good_links failingAfterFirst_def site_twoAnchors)
  have p2: "getFileLinksFromPage (site failingAfterFirst) (listing 2) 2 = Inr []"
    by (simp add: site_good_links failingAfterFirst_def)
  have 1: "\<not> halts (site failingAfterFirst) (listing 2) [] 1"
    by (simp add: halts_def p1 isDuplicatePage_iff listing_size)
  have 2: "halts (site failingAfterFirst) (listing 2) [linkA, linkB] 2"
    by (simp add: halts_def p2 listing_size)
  show ?thesis
    using pageWalk_halts [OF 2, of "[linkA, linkB]" "[1]"]
    by (simp add: pageWalk_continues [OF 1] pageLinks_def p1 p2 lastStep_def isDuplicatePage_iff)
qed

lemma walk_broken_href:
  "pageWalk (site brokenHrefPages) (listing 1) 1 [] [] []
     = Some (Stopped ShortPage [linkA], [1, 2])"
proof -
  have p1: "getFileLinksFromPage (site brokenHrefPages) (listing 1) 1 = Inr [linkA]"
    by (simp add: site_good_links brokenHrefPages_def site_broken_page del: extractLinks.simps)
  have p2: "getFileLinksFromPage (site brokenHrefPages) (listing 1) 2 = Inr []"
    by (simp add: site_good_links brokenHrefPages_def)
  have 1: "\<not> halts (site brokenHrefPages) (listing 1) [] 1"
    by (simp add: halts_def p1 isDuplicatePage_iff listing_size)
  have 2: "halts (site brokenHrefPages) (listing 1) [linkA] 2"
    by (simp add: halts_def p2 listing_size)
  show ?thesis
    using pageWalk_halts [OF 2, of "[linkA]" "[1]"]
    by (simp add: pageWalk_continues [OF 1] pageLinks_def p1 p2 lastStep_def isDuplicatePage_iff)
qed

lemma site_writable: "checkpoint_fault (site pages) = None"
  by (simp add: site_def)

lemma listing_start: "startPage (listing n) = 1"
  by (simp add: listing_def)

text \<open>
  C1. In a run without checkpoint reuse, if the list extracted from page \<open>N + 1\<close> is the
  list extracted from page \<open>N\<close>, the run ends and no page after \<open>N + 1\<close> is fetched; when
  page \<open>N + 1\<close> is fetched the walk stops there by the duplicate-page \<^verbatim>\<open>break\<close>, and the
  accumulator is the concatenation of the pages up to \<open>N\<close>: the list of page \<open>N + 1\<close> is
  not appended.
\<close>

theorem duplicate_page_ends_walk:
  assumes "startPage cfg \<le> N"
    and "getFileLinksFromPage env cfg N = Inr ls"
    and "getFileLinksFromPage env cfg (N + 1) = Inr ls"
    and "checkpoint = None \<or> \<not> userChoice"
  shows "\<exists>run q. fetchAllFileLinks env cfg userChoice checkpoint = Some run
           \<and> startPage cfg \<le> q \<and> q \<le> N + 1 \<and> fetchedPages run = [startPage cfg..q]
           \<and> (q = N + 1 \<longrightarrow>
                 stoppedBy run = Some DuplicatePage
               \<and> (checkpoint_fault env = None \<longrightarrow>
                    result run = Inr (Walked (concat (map (pageLinks env cfg) [startPage cfg..N])))))"
proof -
  have pl: "pageLinks env cfg N = ls" using assms(2) by (simp add: pageLinks_def)
  have h: "halts env cfg (pageLinks env cfg (N + 1 - 1)) (N + 1)"
    using assms(3) pl by (simp add: halts_def isDuplicatePage_iff)
  have le: "startPage cfg \<le> N + 1" using assms(1) by simp
  from walkAndSave_until [OF le, of env checkpoint] assms(1) h
  obtain run q where run: "walkAndSave env cfg checkpoint = Some run" "q \<le> N + 1"
      "startPage cfg \<le> q" "fetchedPages run = [startPage cfg..q]"
      "stoppedBy run =
         (case lastStep env cfg (if q = startPage cfg then [] else pageLinks env cfg (q - 1))
                 (concat (map (pageLinks env cfg) [startPage cfg..q - 1])) q
          of Raised err \<Rightarrow> None | Stopped why fileLinks \<Rightarrow> Some why)"
      "\<forall>why fileLinks.
         lastStep env cfg (if q = startPage cfg then [] else pageLinks env cfg (q - 1))
           (concat (map (pageLinks env cfg) [startPage cfg..q - 1])) q = Stopped why fileLinks
         \<and> checkpoint_fault env = None
         \<longrightarrow> result run = Inr (Walked fileLinks)"
    by auto
  have dup: "q = N + 1 \<Longrightarrow>
      lastStep env cfg (if q = startPage cfg then [] else pageLinks env cfg (q - 1))
        (concat (map (pageLinks env cfg) [startPage cfg..q - 1])) q
      = Stopped DuplicatePage (concat (map (pageLinks env cfg) [startPage cfg..N]))"
    using assms(1,3) pl by (simp add: lastStep_def isDuplicatePage_iff)
  show ?thesis
    using run dup fetchAllFileLinks_fresh [OF assms(4), of env cfg]
    by (intro exI [of _ run] exI [of _ q]) auto
qed

theorem duplicate_page_ends_walk_witness:
  "getFileLinksFromPage (site repeatingPages) (listing 2) 1 = Inr [linkA, linkB]
   \<and> getFileLinksFromPage (site repeatingPages) (listing 2) 2 = Inr [linkA, linkB]
   \<and> fetchAllFileLinks (site repeatingPages) (listing 2) False None
       = Some \<lparr>result = Inr (Walked [linkA, linkB]), fetchedPages = [1, 2],
               stoppedBy = Some DuplicatePage,
               checkpointAfter = Some (jsonLines [linkA, linkB])\<rparr>
   \<and> (\<exists>run q. fetchAllFileLinks (site repeatingPages) (listing 2) False None = Some run
         \<and> 1 \<le> q \<and> q \<le> 2 \<and> fetchedPages run = [1..q])"
proof -
  have p: "getFileLinksFromPage (site repeatingPages) (listing 2) q = Inr [linkA, linkB]" for q
    by (simp add: site_good_links repeatingPages_def site_twoAnchors)
  have s: "startPage (listing 2) \<le> 1" by (simp add: listing_start)
  have "\<exists>run q. fetchAllFileLinks (site repeatingPages) (listing 2) False None = Some run
         \<and> 1 \<le> q \<and> q \<le> 2 \<and> fetchedPages run = [1..q]"
    using duplicate_page_ends_walk [OF s p [of 1], of None False] p [of 2]
    by (simp add: listing_start) blast
  moreover have "fetchAllFileLinks (site repeatingPages) (listing 2) False None
       = Some \<lparr>result = Inr (Walked [linkA, linkB]), fetchedPages = [1, 2],
               stoppedBy = Some DuplicatePage,
               checkpointAfter = Some (jsonLines [linkA, linkB])\<rparr>"
    using walkAndSave_Stopped [of "site repeatingPages" "listing 2" DuplicatePage "[linkA, linkB]"
        "[1, 2]" None] walk_repeating
    by (simp add: fetchAllFileLinks_def listing_start site_writable utf8_jsonLines)
  ultimately show ?thesis using p by simp
qed

text \<open>
  C4. In a run without checkpoint reuse, if a page \<open>N\<close> yields fewer references than
  \<open>maxItemsPerPage\<close>, the run ends and no page after \<open>N\<close> is fetched; when page \<open>N\<close> is
  fetched the walk stops there, by the duplicate-page \<^verbatim>\<open>break\<close> if its list repeats the
  previous one and by the short-page \<^verbatim>\<open>break\<close> otherwise.
\<close>

theorem short_page_ends_walk:
  assumes "startPage cfg \<le> N"
    and "getFileLinksFromPage env cfg N = Inr ls"
    and "int (length ls) < maxItemsPerPage cfg"
    and "checkpoint = None \<or> \<not> userChoice"
  shows "\<exists>run q. fetchAllFileLinks env cfg userChoice checkpoint = Some run
           \<and> startPage cfg \<le> q \<and> q \<le> N \<and> fetchedPages run = [startPage cfg..q]
           \<and> (q = N \<longrightarrow> stoppedBy run
                 = Some (if isDuplicatePage (if N = startPage cfg then [] else pageLinks env cfg (N - 1)) ls
                         then DuplicatePage else ShortPage))"
  using walk_ends_by_short_page [OF assms(1,2,3), of checkpoint]
    fetchAllFileLinks_fresh [OF assms(4), of env cfg]
  by simp

theorem short_page_ends_walk_witness:
  "getFileLinksFromPage (site repeatingPages) (listing 10) 1 = Inr [linkA, linkB]
   \<and> (\<exists>run. fetchAllFileLinks (site repeatingPages) (listing 10) False None = Some run
         \<and> fetchedPages run = [1] \<and> stoppedBy run = Some ShortPage)"
proof -
  have p: "getFileLinksFromPage (site repeatingPages) (listing 10) 1 = Inr [linkA, linkB]"
    by (simp add: site_good_links repeatingPages_def site_twoAnchors)
  have s: "startPage (listing 10) \<le> 1" by (simp add: listing_start)
  have l: "int (length [linkA, linkB]) < maxItemsPerPage (listing 10)"
    by (simp add: listing_size)
  from short_page_ends_walk [OF s p l, of None False]
  obtain run q where run: "fetchAllFileLinks (site repeatingPages) (listing 10) False None = Some run"
    "1 \<le> q" "q \<le> 1" "fetchedPages run = [1..q]"
    "q = 1 \<longrightarrow> stoppedBy run = Some ShortPage"
    by (auto simp: listing_start isDuplicatePage_iff)
  then have "q = 1" by simp
  with run p show ?thesis by auto
qed

text \<open>
  C10. In a run without checkpoint reuse whose first page yields no reference, with a
  disk that takes the checkpoint: the walk stops on that page by the duplicate-page
  \<^verbatim>\<open>break\<close>, whatever \<open>maxItemsPerPage\<close> is; the result is the empty list, the only page
  fetched is the first, and the checkpoint written is the text of an empty array.
\<close>

theorem empty_first_page_is_duplicate:
  assumes "getFileLinksFromPage env cfg (startPage cfg) = Inr []"
    and "checkpoint = None \<or> \<not> userChoice"
    and "checkpoint_fault env = None"
  shows "fetchAllFileLinks env cfg userChoice checkpoint
           = Some \<lparr>result = Inr (Walked []), fetchedPages = [startPage cfg],
                   stoppedBy = Some DuplicatePage,
                   checkpointAfter = Some [0x5B, 0x0A, 0x0A, 0x5D]\<rparr>
       \<and> JSON_parse [0x5B, 0x0A, 0x0A, 0x5D] = Some (JArray [])"
proof -
  have "halts env cfg [] (startPage cfg)"
    using assms(1) by (simp add: halts_def isDuplicatePage_iff)
  from pageWalk_halts [OF this, of "[]" "[]"]
  have "pageWalk env cfg (startPage cfg) [] [] [] = Some (Stopped DuplicatePage [], [startPage cfg])"
    using assms(1) by (simp add: lastStep_def isDuplicatePage_iff)
  from walkAndSave_Stopped [OF this, of checkpoint]
  have "walkAndSave env cfg checkpoint
        = Some \<lparr>result = Inr (Walked []), fetchedPages = [startPage cfg],
                   stoppedBy = Some DuplicatePage,
                   checkpointAfter = Some [0x5B, 0x0A, 0x0A, 0x5D]\<rparr>"
    using assms(3) utf8_jsonLines [of "[]"] by (simp add: jsonLines_Nil)
  moreover have "JSON_parse [0x5B, 0x0A, 0x0A, 0x5D] = Some (JArray [])"
    using JSON_parse_jsonLines [of "[]"] by (simp add: jsonLines_Nil jsonOfFileLinks_def)
  ultimately show ?thesis
    using fetchAllFileLinks_fresh [OF assms(2), of env cfg] by simp
qed

theorem empty_first_page_is_duplicate_witness:
  "getFileLinksFromPage (site unreachablePages) (listing 0) 1 = Inr []
   \<and> fetchAllFileLinks (site unreachablePages) (listing 0) False None
       = Some \<lparr>result = Inr (Walked []), fetchedPages = [1], stoppedBy = Some DuplicatePage,
               checkpointAfter = Some [0x5B, 0x0A, 0x0A, 0x5D]\<rparr>"
proof -
  have p: "getFileLinksFromPage (site unreachablePages) (listing 0) (startPage (listing 0)) = Inr []"
    by (simp add: site_good_links unreachablePages_def)
  from empty_first_page_is_duplicate [OF p, of None False] p show ?thesis
    by (simp add: site_writable listing_start)
qed

text \<open>
  C3. With a checkpoint whose text parses to a value other than \<^verbatim>\<open>null\<close> and the answer
  yes, \<^verbatim>\<open>fetchAllFileLinks\<close> returns the parsed value, fetches no page and leaves the
  checkpoint as it is. With the answer no the walk from \<open>startPage\<close> runs: when it stops,
  on a disk that takes the checkpoint, the run returns the accumulator of the walk, has
  fetched the pages of the walk, and the checkpoint holds the lines of the accumulator in
  place of the old text. The walk does stop, and the checkpoint is overwritten so, when
  some page \<open>N\<close> is short and the browser launches and closes on every page up to \<open>N\<close>.
\<close>

theorem checkpoint_reuse_or_overwrite:
  "(JSON_parse text = Some v \<and> v \<noteq> JNull \<longrightarrow>
      fetchAllFileLinks env cfg True (Some text)
        = Some \<lparr>result = Inr (Reused v), fetchedPages = [], stoppedBy = None,
                checkpointAfter = Some text\<rparr>)
   \<and> (pageWalk env cfg (startPage cfg) [] [] [] = Some (Stopped why fileLinks, pages)
        \<and> checkpoint_fault env = None \<longrightarrow>
      fetchAllFileLinks env cfg False (Some text)
        = Some \<lparr>result = Inr (Walked fileLinks), fetchedPages = pages, stoppedBy = Some why,
                checkpointAfter = Some (jsonLines fileLinks)\<rparr>)
   \<and> (startPage cfg \<le> N
        \<and> (\<forall>p \<in> {startPage cfg..N}. launches (render env p) \<and> closes (render env p))
        \<and> int (length (pageLinks env cfg N)) < maxItemsPerPage cfg
        \<and> checkpoint_fault env = None \<longrightarrow>
      (\<exists>run q fileLinks. fetchAllFileLinks env cfg False (Some text) = Some run
         \<and> startPage cfg \<le> q \<and> q \<le> N \<and> fetchedPages run = [startPage cfg..q]
         \<and> result run = Inr (Walked fileLinks)
         \<and> checkpointAfter run = Some (jsonLines fileLinks)))"
proof (intro conjI impI)
  assume "JSON_parse text = Some v \<and> v \<noteq> JNull"
  then show "fetchAllFileLinks env cfg True (Some text)
        = Some \<lparr>result = Inr (Reused v), fetchedPages = [], stoppedBy = None,
                checkpointAfter = Some text\<rparr>"
    by (simp add: fetchAllFileLinks_def)
next
  assume "pageWalk env cfg (startPage cfg) [] [] [] = Some (Stopped why fileLinks, pages)
        \<and> checkpoint_fault env = None"
  then show "fetchAllFileLinks env cfg False (Some text)
        = Some \<lparr>result = Inr (Walked fileLinks), fetchedPages = pages, stoppedBy = Some why,
                checkpointAfter = Some (jsonLines fileLinks)\<rparr>"
    by (simp add: fetchAllFileLinks_def walkAndSave_Stopped utf8_jsonLines)
next
  assume a: "startPage cfg \<le> N
        \<and> (\<forall>p \<in> {startPage cfg..N}. launches (render env p) \<and> closes (render env p))
        \<and> int (length (pageLinks env cfg N)) < maxItemsPerPage cfg
        \<and> checkpoint_fault env = None"
  have ok: "\<exists>ls. getFileLinksFromPage env cfg p = Inr ls" if "startPage cfg \<le> p" "p \<le> N" for p
    using a that by (simp add: getFileLinksFromPage_caught)
  have s: "startPage cfg \<le> N" using a by simp
  from ok [OF s] have pN: "getFileLinksFromPage env cfg N = Inr (pageLinks env cfg N)"
    by (auto simp: pageLinks_def)
  have h: "halts env cfg lastPageLinks N" for lastPageLinks
    using a pN by (simp add: halts_def)
  from walkAndSave_until [OF s h h, of "Some text"]
  obtain run q where run: "walkAndSave env cfg (Some text) = Some run"
      "startPage cfg \<le> q" "q \<le> N" "fetchedPages run = [startPage cfg..q]"
      "\<forall>why fileLinks.
          lastStep env cfg (if q = startPage cfg then [] else pageLinks env cfg (q - 1))
            (concat (map (pageLinks env cfg) [startPage cfg..q - 1])) q = Stopped why fileLinks
          \<and> checkpoint_fault env = None
          \<longrightarrow> result run = Inr (Walked fileLinks)
            \<and> checkpointAfter run = Some (jsonLines fileLinks)"
    by blast
  from ok [OF run(2,3)] have "\<exists>why fileLinks.
    lastStep env cfg (if q = startPage cfg then [] else pageLinks env cfg (q - 1))
       (concat (map (pageLinks env cfg) [startPage cfg..q - 1])) q = Stopped why fileLinks"
    by (auto simp: lastStep_def)
  then obtain why fileLinks where
    "lastStep env cfg (if q = startPage cfg then [] else pageLinks env cfg (q - 1))
       (concat (map (pageLinks env cfg) [startPage cfg..q - 1])) q = Stopped why fileLinks"
    by blast
  with run(5) a have "result run = Inr (Walked fileLinks)
      \<and> checkpointAfter run = Some (jsonLines fileLinks)"
    by blast
  with run show "\<exists>run q fileLinks. fetchAllFileLinks env cfg False (Some text) = Some run
         \<and> startPage cfg \<le> q \<and> q \<le> N \<and> fetchedPages run = [startPage cfg..q]
         \<and> result run = Inr (Walked fileLinks)
         \<and> checkpointAfter run = Some (jsonLines fileLinks)"
    by (auto simp: fetchAllFileLinks_def)
qed

theorem checkpoint_reuse_or_overwrite_witness:
  "fetchAllFileLinks (site repeatingPages) (listing 2) True (Some (jsonLines [linkC]))
     = Some \<lparr>result = Inr (Reused (jsonOfFileLinks [linkC])), fetchedPages = [],
             stoppedBy = None, checkpointAfter = Some (jsonLines [linkC])\<rparr>
   \<and> fetchAllFileLinks (site repeatingPages) (listing 2) False (Some (jsonLines [linkC]))
     = Some \<lparr>result = Inr (Walked [linkA, linkB]), fetchedPages = [1, 2],
             stoppedBy = Some DuplicatePage, checkpointAfter = Some (jsonLines [linkA, linkB])\<rparr>
   \<and> (\<exists>run q fileLinks.
         fetchAllFileLinks (site failingAfterFirst) (listing 2) False (Some (jsonLines [linkC]))
           = Some run
         \<and> 1 \<le> q \<and> q \<le> 2 \<and> fetchedPages run = [1..q]
         \<and> result run = Inr (Walked fileLinks)
         \<and> checkpointAfter run = Some (jsonLines fileLinks))"
proof -
  have a: "JSON_parse (jsonLines [linkC]) = Some (jsonOfFileLinks [linkC])
           \<and> jsonOfFileLinks [linkC] \<noteq> JNull"
    by (simp add: JSON_parse_jsonLines) (simp add: jsonOfFileLinks_def)
  have b: "pageWalk (site repeatingPages) (listing 2) (startPage (listing 2)) [] [] []
             = Some (Stopped DuplicatePage [linkA, linkB], [1, 2])
           \<and> checkpoint_fault (site repeatingPages) = None"
    by (simp add: listing_start walk_repeating site_writable)
  have c: "startPage (listing 2) \<le> 2
        \<and> (\<forall>p \<in> {startPage (listing 2)..2}.
              launches (render (site failingAfterFirst) p) \<and> closes (render (site failingAfterFirst) p))
        \<and> int (length (pageLinks (site failingAfterFirst) (listing 2) 2)) < maxItemsPerPage (listing 2)
        \<and> checkpoint_fault (site failingAfterFirst) = None"
    by (simp add: listing_start listing_size site_writable pageLinks_def site_good_links
        failingAfterFirst_def)
  from checkpoint_reuse_or_overwrite [of "jsonLines [linkC]" "jsonOfFileLinks [linkC]"
      "site repeatingPages" "listing 2" DuplicatePage "[linkA, linkB]" "[1, 2]" 2] a b
  have 1: "fetchAllFileLinks (site repeatingPages) (listing 2) True (Some (jsonLines [linkC]))
     = Some \<lparr>result = Inr (Reused (jsonOfFileLinks [linkC])), fetchedPages = [],
             stoppedBy = None, checkpointAfter = Some (jsonLines [linkC])\<rparr>"
    and 2: "fetchAllFileLinks (site repeatingPages) (listing 2) False (Some (jsonLines [linkC]))
     = Some \<lparr>result = Inr (Walked [linkA, linkB]), fetchedPages = [1, 2],
             stoppedBy = Some DuplicatePage, checkpointAfter = Some (jsonLines [linkA, linkB])\<rparr>"
    by blast+
  from checkpoint_reuse_or_overwrite [of "jsonLines [linkC]" "jsonOfFileLinks [linkC]"
      "site failingAfterFirst" "listing 2" DuplicatePage "[]" "[]" 2] c
  have 3: "\<exists>run q fileLinks.
         fetchAllFileLinks (site failingAfterFirst) (listing 2) False (Some (jsonLines [linkC]))
           = Some run
         \<and> 1 \<le> q \<and> q \<le> 2 \<and> fetchedPages run = [1..q]
         \<and> result run = Inr (Walked fileLinks)
         \<and> checkpointAfter run = Some (jsonLines fileLinks)"
    by (simp add: listing_start)
  from 1 2 3 show ?thesis by blast
qed

text \<open>
  C8. On a disk that takes the checkpoint, \<^verbatim>\<open>saveFileLinksToJson\<close> leaves a file whose text,
  read back as UTF-8, parses with \<^verbatim>\<open>JSON.parse\<close> to the array of the same references in
  the same order, for every list of references, the empty list included.
\<close>

theorem checkpoint_round_trip:
  assumes "checkpoint_fault env = None"
  shows "\<exists>text. saveFileLinksToJson env fileLinks checkpoint = (Inr (), Some text)
           \<and> JSON_parse text = Some (jsonOfFileLinks fileLinks)
           \<and> fileLinksOfJson (jsonOfFileLinks fileLinks) = Some fileLinks"
  using assms
  by (simp add: saveFileLinksToJson_def utf8_jsonLines JSON_parse_jsonLines fileLinksOfJson_inverse)

theorem checkpoint_round_trip_witness:
  "checkpoint_fault (site repeatingPages) = None
   \<and> (\<exists>text. saveFileLinksToJson (site repeatingPages) [linkA, linkB] None = (Inr (), Some text)
           \<and> JSON_parse text = Some (jsonOfFileLinks [linkA, linkB])
           \<and> fileLinksOfJson (jsonOfFileLinks [linkA, linkB]) = Some [linkA, linkB])
   \<and> (\<exists>text. saveFileLinksToJson (site repeatingPages) [] None = (Inr (), Some text)
           \<and> JSON_parse text = Some (jsonOfFileLinks [])
           \<and> fileLinksOfJson (jsonOfFileLinks []) = Some [])"
  using checkpoint_round_trip [OF site_writable, of repeatingPages "[linkA, linkB]" None]
    checkpoint_round_trip [OF site_writable, of repeatingPages "[]" None]
  by (simp add: site_writable)

text \<open>
  C9, as the code has it. With a browser that launches and closes, no failure on a listing
  page leaves \<^verbatim>\<open>getFileLinksFromPage\<close>. A failure of the navigation or of the collection of
  the anchors makes the page contribute the empty list; a failure while a link is
  extracted makes it contribute the links extracted before the failure. In a run without
  checkpoint reuse and with a positive \<open>maxItemsPerPage\<close>, a page \<open>N\<close> whose navigation
  fails ends the run: no page after \<open>N\<close> is fetched, and when page \<open>N\<close> is fetched the walk
  stops there by a \<^verbatim>\<open>break\<close> (the duplicate-page one when the previous list is empty, the
  short-page one otherwise), not by an exception.
\<close>

theorem page_failure_absorbed:
  "(launches (render env page) \<and> closes (render env page) \<longrightarrow>
      (\<exists>fileLinks. getFileLinksFromPage env cfg page = Inr fileLinks))
   \<and> (launches (render env page) \<and> closes (render env page)
        \<and> anchors (render env page) = None \<longrightarrow>
      getFileLinksFromPage env cfg page = Inr [])
   \<and> (launches (render env page) \<and> closes (render env page)
        \<and> anchors (render env page) = Some (before @ (href, title) # after)
        \<and> (\<forall>(h, t) \<in> set before. \<forall>e. extractFileUrl env cfg h \<noteq> Inl e)
        \<and> extractFileUrl env cfg href = Inl err \<longrightarrow>
      getFileLinksFromPage env cfg page = Inr (extractLinks env cfg before []))
   \<and> (startPage cfg \<le> N \<and> launches (render env N) \<and> closes (render env N)
        \<and> anchors (render env N) = None \<and> 0 < maxItemsPerPage cfg
        \<and> (checkpoint = None \<or> \<not> userChoice) \<longrightarrow>
      (\<exists>run q. fetchAllFileLinks env cfg userChoice checkpoint = Some run
         \<and> startPage cfg \<le> q \<and> q \<le> N \<and> fetchedPages run = [startPage cfg..q]
         \<and> (q = N \<longrightarrow> stoppedBy run
               = Some (if N = startPage cfg \<or> pageLinks env cfg (N - 1) = []
                       then DuplicatePage else ShortPage))))"
proof (intro conjI impI)
  assume "launches (render env page) \<and> closes (render env page)"
  then show "\<exists>fileLinks. getFileLinksFromPage env cfg page = Inr fileLinks"
    by (simp add: getFileLinksFromPage_caught)
next
  assume "launches (render env page) \<and> closes (render env page)
        \<and> anchors (render env page) = None"
  then show "getFileLinksFromPage env cfg page = Inr []"
    by (simp add: getFileLinksFromPage_caught)
next
  assume a: "launches (render env page) \<and> closes (render env page)
        \<and> anchors (render env page) = Some (before @ (href, title) # after)
        \<and> (\<forall>(h, t) \<in> set before. \<forall>e. extractFileUrl env cfg h \<noteq> Inl e)
        \<and> extractFileUrl env cfg href = Inl err"
  then have "extractLinks env cfg (before @ (href, title) # after) []
               = extractLinks env cfg before []"
    by (intro extractLinks_before_failure) simp_all
  with a show "getFileLinksFromPage env cfg page = Inr (extractLinks env cfg before [])"
    by (simp add: getFileLinksFromPage_caught)
next
  assume a: "startPage cfg \<le> N \<and> launches (render env N) \<and> closes (render env N)
        \<and> anchors (render env N) = None \<and> 0 < maxItemsPerPage cfg
        \<and> (checkpoint = None \<or> \<not> userChoice)"
  then have p: "getFileLinksFromPage env cfg N = Inr []"
    by (simp add: getFileLinksFromPage_caught)
  have l: "int (length ([] :: FileLink list)) < maxItemsPerPage cfg"
    using a by simp
  have s: "startPage cfg \<le> N" using a by simp
  have d: "isDuplicatePage (if N = startPage cfg then [] else pageLinks env cfg (N - 1)) []
             \<longleftrightarrow> N = startPage cfg \<or> pageLinks env cfg (N - 1) = []"
    by (simp add: isDuplicatePage_iff)
  from walk_ends_by_short_page [OF s p l, of checkpoint] a
  show "\<exists>run q. fetchAllFileLinks env cfg userChoice checkpoint = Some run
         \<and> startPage cfg \<le> q \<and> q \<le> N \<and> fetchedPages run = [startPage cfg..q]
         \<and> (q = N \<longrightarrow> stoppedBy run
               = Some (if N = startPage cfg \<or> pageLinks env cfg (N - 1) = []
                       then DuplicatePage else ShortPage))"
    unfolding d by (simp add: fetchAllFileLinks_fresh)
qed

theorem page_failure_absorbed_witness:
  "getFileLinksFromPage (site failingAfterFirst) (listing 2) 2 = Inr []
   \<and> fetchAllFileLinks (site failingAfterFirst) (listing 2) False None
       = Some \<lparr>result = Inr (Walked [linkA, linkB]), fetchedPages = [1, 2],
               stoppedBy = Some ShortPage, checkpointAfter = Some (jsonLines [linkA, linkB])\<rparr>
   \<and> (\<exists>run q. fetchAllFileLinks (site failingAfterFirst) (listing 2) False None = Some run
         \<and> 1 \<le> q \<and> q \<le> 2 \<and> fetchedPages run = [1..q])
   \<and> getFileLinksFromPage (site brokenHrefPages) (listing 1) 1 = Inr [linkA]"
proof -
  note t = page_failure_absorbed [of "site failingAfterFirst" 2 "listing 2" "[]" "[]" "[]" "[]"
      InvalidUrl 2 None False]
  have none: "anchors (render (site failingAfterFirst) 2) = None"
    by (simp add: failingAfterFirst_def)
  from t none have p2: "getFileLinksFromPage (site failingAfterFirst) (listing 2) 2 = Inr []"
    by simp
  from t none have ex: "\<exists>run q. fetchAllFileLinks (site failingAfterFirst) (listing 2) False None = Some run
         \<and> 1 \<le> q \<and> q \<le> 2 \<and> fetchedPages run = [1..q]"
    by (simp add: listing_start listing_size) blast
  have run: "fetchAllFileLinks (site failingAfterFirst) (listing 2) False None
       = Some \<lparr>result = Inr (Walked [linkA, linkB]), fetchedPages = [1, 2],
               stoppedBy = Some ShortPage, checkpointAfter = Some (jsonLines [linkA, linkB])\<rparr>"
    using walkAndSave_Stopped [of "site failingAfterFirst" "listing 2" ShortPage "[linkA, linkB]"
        "[1, 2]" None] walk_failing_after_first
    by (simp add: fetchAllFileLinks_def listing_start site_writable utf8_jsonLines)
  note b = page_failure_absorbed [of "site brokenHrefPages" 1 "listing 1"
      "[(js ''http://h/a.pdf'', js ''a.pdf'')]" "js ''//''" "js ''b.pdf''" "[]" InvalidUrl 1 None False]
  have good: "\<forall>(h, t) \<in> set [(js ''http://h/a.pdf'', js ''a.pdf'')].
                \<forall>e. extractFileUrl (site brokenHrefPages) (listing 1) h \<noteq> Inl e"
    by (simp add: site_good_href)
  have first: "extractLinks (site brokenHrefPages) (listing 1) [(js ''http://h/a.pdf'', js ''a.pdf'')] []
               = [linkA]"
    by (simp add: site_def extractFileUrl_def extractFileNameFromTitle_def linkA_def js_def)
  have "anchors (render (site brokenHrefPages) 1)
          = Some ([(js ''http://h/a.pdf'', js ''a.pdf'')] @ (js ''//'', js ''b.pdf'') # [])"
    by (simp add: brokenHrefPages_def)
  with b good site_broken_href [of brokenHrefPages "listing 1"]
  have p1: "getFileLinksFromPage (site brokenHrefPages) (listing 1) 1 = Inr [linkA]"
    unfolding first by simp
  from p2 run ex p1 show ?thesis by blast
qed

text \<open>
  C9, as the claim states it, fails. On page 1 the extraction of the second anchor throws
  (\<^verbatim>\<open>new URL('//', baseUrl)\<close>); the error is caught, the page contributes the reference
  extracted before it, not the empty list, and with one item per page the walk goes on
  to page 2.
\<close>

theorem extraction_failure_counterexample:
  "extractFileUrl (site brokenHrefPages) (listing 1) (js ''//'') = Inl InvalidUrl
   \<and> getFileLinksFromPage (site brokenHrefPages) (listing 1) 1 = Inr [linkA]
   \<and> fetchAllFileLinks (site brokenHrefPages) (listing 1) False None
       = Some \<lparr>result = Inr (Walked [linkA]), fetchedPages = [1, 2],
               stoppedBy = Some ShortPage, checkpointAfter = Some (jsonLines [linkA])\<rparr>"
proof -
  have "getFileLinksFromPage (site brokenHrefPages) (listing 1) 1 = Inr [linkA]"
    by (simp add: site_good_links brokenHrefPages_def site_broken_page del: extractLinks.simps)
  moreover have "fetchAllFileLinks (site brokenHrefPages) (listing 1) False None
       = Some \<lparr>result = Inr (Walked [linkA]), fetchedPages = [1, 2],
               stoppedBy = Some ShortPage, checkpointAfter = Some (jsonLines [linkA])\<rparr>"
    using walkAndSave_Stopped [of "site brokenHrefPages" "listing 1" ShortPage "[linkA]"
        "[1, 2]" None] walk_broken_href
    by (simp add: fetchAllFileLinks_def listing_start site_writable utf8_jsonLines)
  ultimately show ?thesis by (simp add: site_broken_href)
qed

end
